theory Spec2Isabelle
  imports Complex_Main "HOL-Library.Multiset" "HOL-Library.AList" "HOL-Library.Char_ord"
    "HOL-Library.List_Lexorder"
begin

section \<open>Python string primitives used by the label tools\<close>

text \<open>
  A Python \<open>str\<close> is modelled as a \<open>string\<close>, one \<open>char\<close> per code point; the type
  covers the code points below 256, which is where label files live.  The two character
  classes are those of CPython restricted to that range: \<open>str.split()\<close>, \<open>str.strip()\<close>
  use \<open>is_space\<close>, \<open>str.splitlines()\<close> uses \<open>is_linebreak\<close>.
\<close>

definition is_space :: "char \<Rightarrow> bool" where
  "is_space c = ((of_char c :: nat) \<in> {9, 10, 11, 12, 13, 28, 29, 30, 31, 32, 133, 160})"

definition is_linebreak :: "char \<Rightarrow> bool" where
  "is_linebreak c = ((of_char c :: nat) \<in> {10, 11, 12, 13, 28, 29, 30, 133})"

abbreviation LF :: char where "LF \<equiv> CHR 0x0A"
abbreviation CR :: char where "CR \<equiv> CHR 0x0D"

text \<open>\<open>text.splitlines()\<close>: a line ends at a line break, \<open>\r\n\<close> counts as one break,
  and a break at the very end opens no further line.\<close>

definition after_break :: "string \<Rightarrow> string" where
  "after_break r =
     (case r of
        [] \<Rightarrow> []
      | c # r' \<Rightarrow> (if c = CR \<and> r' \<noteq> [] \<and> hd r' = LF then tl r' else r'))"

function splitlines :: "string \<Rightarrow> string list" where
  "splitlines s =
     (if s = [] then []
      else takeWhile (\<lambda>c. \<not> is_linebreak c) s
           # splitlines (after_break (dropWhile (\<lambda>c. \<not> is_linebreak c) s)))"
  by pat_completeness auto
termination
proof (relation "measure length")
  show "wf (measure length)" by simp
next
  fix s :: string
  assume ne: "s \<noteq> []"
  let ?r = "dropWhile (\<lambda>c. \<not> is_linebreak c) s"
  have le: "length ?r \<le> length s" by (rule length_dropWhile_le)
  have "length (after_break ?r) < length s"
  proof (cases ?r)
    case Nil
    show ?thesis using ne by (simp add: Nil after_break_def)
  next
    case (Cons c r')
    then have "length (after_break ?r) \<le> length r'"
      by (cases r') (auto simp: after_break_def)
    then show ?thesis using le Cons by simp
  qed
  then show "(after_break ?r, s) \<in> measure length" by simp
qed

declare splitlines.simps [simp del]

text \<open>\<open>s.strip()\<close> and \<open>s.split()\<close> with no argument.\<close>

definition strip :: "string \<Rightarrow> string" where
  "strip s = rev (dropWhile is_space (rev (dropWhile is_space s)))"

function split_ws :: "string \<Rightarrow> string list" where
  "split_ws s =
     (let s' = dropWhile is_space s
      in if s' = [] then []
         else takeWhile (\<lambda>c. \<not> is_space c) s' # split_ws (dropWhile (\<lambda>c. \<not> is_space c) s'))"
  by pat_completeness auto
termination
proof (relation "measure length")
  show "wf (measure length)" by simp
next
  fix s s' :: string
  assume s': "s' = dropWhile is_space s" and ne: "s' \<noteq> []"
  from ne obtain c r where cr: "s' = c # r" by (cases s') auto
  have "dropWhile is_space s \<noteq> []" using ne s' by blast
  then have "\<not> is_space (hd (dropWhile is_space s))" by (rule hd_dropWhile)
  then have "\<not> is_space c" using cr s' by simp
  then have "length (dropWhile (\<lambda>c. \<not> is_space c) s') \<le> length r"
    using cr by (simp add: length_dropWhile_le)
  moreover have "length s' \<le> length s" using s' by (simp add: length_dropWhile_le)
  ultimately show "(dropWhile (\<lambda>c. \<not> is_space c) s', s) \<in> measure length"
    using cr by simp
qed

declare split_ws.simps [simp del]

text \<open>\<open>sep.join(xs)\<close> and \<open>text.endswith("\n")\<close>.\<close>

fun join :: "string \<Rightarrow> string list \<Rightarrow> string" where
  "join sep [] = []"
| "join sep [x] = x"
| "join sep (x # y # ys) = x @ sep @ join sep (y # ys)"

definition ends_with_newline :: "string \<Rightarrow> bool" where
  "ends_with_newline s = (s \<noteq> [] \<and> last s = LF)"


text \<open>A token is what \<open>split()\<close> returns: non-empty and free of white space.\<close>

definition is_token :: "string \<Rightarrow> bool" where
  "is_token p = (p \<noteq> [] \<and> (\<forall>c \<in> set p. \<not> is_space c))"

definition no_linebreak :: "string \<Rightarrow> bool" where
  "no_linebreak l = (\<forall>c \<in> set l. \<not> is_linebreak c)"

section \<open>Files on disk\<close>

text \<open>
  The scripts keep no state but the files.  A path is its list of components, a file
  system is an association list from paths to nodes, in directory order.  \<open>Path.read_text()\<close>
  opens in text mode, so \<open>\r\n\<close> and \<open>\r\<close> arrive as \<open>\n\<close>; \<open>Path.write_text()\<close> stores
  the text as it is (POSIX line ends).
\<close>

type_synonym path = "string list"

datatype node = File string | Dir

type_synonym fs = "(path \<times> node) list"

datatype error =
    FileNotFoundError path
  | IsADirectoryError path
  | NotADirectoryError path
  | FileExistsError path
  | TooFewFields
  | BadFloats "string list"
  | ErrorInFile path error
  | RatiosCount
  | RatiosSum
  | IndexError
  | OverflowError
  | HTTPException nat string

definition is_dir :: "fs \<Rightarrow> path \<Rightarrow> bool" where
  "is_dir fs p = (p = [] \<or> map_of fs p = Some Dir)"

definition is_file :: "fs \<Rightarrow> path \<Rightarrow> bool" where
  "is_file fs p = (p \<noteq> [] \<and> (\<exists>c. map_of fs p = Some (File c)))"

definition exists_path :: "fs \<Rightarrow> path \<Rightarrow> bool" where
  "exists_path fs p = (p = [] \<or> map_of fs p \<noteq> None)"

fun universal_newlines :: "string \<Rightarrow> string" where
  "universal_newlines [] = []"
| "universal_newlines [c] = (if c = CR then [LF] else [c])"
| "universal_newlines (c # d # cs) =
     (if c = CR \<and> d = LF then LF # universal_newlines cs
      else if c = CR then LF # universal_newlines (d # cs)
      else c # universal_newlines (d # cs))"

definition read_text :: "fs \<Rightarrow> path \<Rightarrow> error + string" where
  "read_text fs p =
     (if p = [] then Inl (IsADirectoryError p)
      else case map_of fs p of
             None \<Rightarrow> Inl (FileNotFoundError p)
           | Some Dir \<Rightarrow> Inl (IsADirectoryError p)
           | Some (File c) \<Rightarrow> Inr (universal_newlines c))"

definition write_bytes :: "fs \<Rightarrow> path \<Rightarrow> string \<Rightarrow> error + fs" where
  "write_bytes fs p c =
     (if is_dir fs p then Inl (IsADirectoryError p)
      else if is_dir fs (butlast p) then Inr (AList.update p (File c) fs)
      else if exists_path fs (butlast p) then Inl (NotADirectoryError p)
      else Inl (FileNotFoundError p))"

definition write_text :: "fs \<Rightarrow> path \<Rightarrow> string \<Rightarrow> error + fs" where
  "write_text fs p t = write_bytes fs p t"

section \<open>Class and angle normalizer (convert_label_indices.py)\<close>

text \<open>The body of the loop of \<open>rewrite_file\<close> for a line that is not blank: the parts
  written back and whether the line sets \<open>changed\<close>.  \<open>parts[0]\<close> is read only after
  \<open>stripped\<close> was found non-empty, so \<open>parts\<close> has a first element there
  (lemma \<open>split_ws_strip_nonempty\<close>).\<close>

definition rewrite_parts :: "string list \<Rightarrow> string list \<times> bool" where
  "rewrite_parts parts =
     (let c1 = (hd parts \<noteq> ''0'');
          parts1 = (if c1 then parts[0 := ''0''] else parts);
          c2 = (length parts1 > 5);
          parts2 = (if c2 then take 5 parts1 else parts1)
      in (parts2, c1 \<or> c2))"

fun rewrite_loop :: "string list \<Rightarrow> string list \<Rightarrow> bool \<Rightarrow> string list \<times> bool" where
  "rewrite_loop [] updated_lines changed = (updated_lines, changed)"
| "rewrite_loop (line # rest) updated_lines changed =
     (let stripped = strip line
      in if stripped = [] then rewrite_loop rest (updated_lines @ [line]) changed
         else
           let (parts, c) = rewrite_parts (split_ws stripped)
           in rewrite_loop rest (updated_lines @ [join '' '' parts]) (changed \<or> c))"

definition rewrite_file :: "fs \<Rightarrow> path \<Rightarrow> bool \<Rightarrow> (error + bool) \<times> fs" where
  "rewrite_file fs path dry_run =
     (case read_text fs path of
        Inl e \<Rightarrow> (Inl e, fs)
      | Inr text \<Rightarrow>
          let original_lines = splitlines text;
              ending_newline = ends_with_newline text;
              (updated_lines, changed) = rewrite_loop original_lines [] False
          in if changed \<and> \<not> dry_run then
               (let new_text = join [LF] updated_lines @ (if ending_newline then [LF] else [])
                in case write_text fs path new_text of
                     Inl e \<Rightarrow> (Inl e, fs)
                   | Inr fs' \<Rightarrow> (Inr changed, fs'))
             else (Inr changed, fs))"

text \<open>Two readings of the loop, used to state what it computes: the line appended to
  \<open>updated_lines\<close> for an input line, and whether that input line sets \<open>changed\<close>.\<close>

definition rewrite_line :: "string \<Rightarrow> string" where
  "rewrite_line line =
     (if strip line = [] then line
      else join '' '' (fst (rewrite_parts (split_ws (strip line)))))"

definition line_changes :: "string \<Rightarrow> bool" where
  "line_changes line = (strip line \<noteq> [] \<and> snd (rewrite_parts (split_ws (strip line))))"

section \<open>Source/target sync tool (sync_to_yolo_obb.py): label normalisation\<close>

text \<open>The body of the loop of \<open>normalize_label\<close> for a line that is not blank.\<close>

definition normalize_parts :: "string \<Rightarrow> string list \<Rightarrow> string list" where
  "normalize_parts angle_value parts =
     (let parts1 = (if parts \<noteq> [] then parts[0 := ''0''] else parts)
      in if length parts1 = 5 then parts1 @ [angle_value]
         else if length parts1 \<ge> 6 then parts1[5 := angle_value]
         else parts1)"

fun normalize_loop :: "string list \<Rightarrow> string \<Rightarrow> string list \<Rightarrow> string list" where
  "normalize_loop [] angle_value out = out"
| "normalize_loop (line # rest) angle_value out =
     (if strip line = [] then normalize_loop rest angle_value out
      else normalize_loop rest angle_value
             (out @ [join '' '' (normalize_parts angle_value (split_ws line))]))"

definition normalize_label :: "string \<Rightarrow> string \<Rightarrow> string" where
  "normalize_label text angle_value =
     (let lines = splitlines text;
          ending_newline = ends_with_newline text;
          out = normalize_loop lines angle_value [];
          result = join [LF] out
      in if ending_newline \<and> out \<noteq> [] then result @ [LF] else result)"

section \<open>Oriented-box to polygon converter (convert_obb_labels_to_corners.py)\<close>

text \<open>
  The converter computes in Python floats.  Their arithmetic is not modelled: the
  operations the script uses are the fields of a record, and every function of the script
  takes the record as its first argument.  \<open>parse_float\<close> is \<open>float(s)\<close> (\<open>None\<close> where it
  raises \<open>ValueError\<close>), \<open>ftwo\<close> is the literal \<open>2.0\<close>, \<open>fradians\<close> is \<open>math.radians\<close>,
  \<open>fixed15\<close> is the format \<open>f"{value:.15f}"\<close>.
\<close>

record 'f float_ops =
  parse_float :: "string \<Rightarrow> 'f option"
  fadd :: "'f \<Rightarrow> 'f \<Rightarrow> 'f"
  fsub :: "'f \<Rightarrow> 'f \<Rightarrow> 'f"
  fmul :: "'f \<Rightarrow> 'f \<Rightarrow> 'f"
  fdiv :: "'f \<Rightarrow> 'f \<Rightarrow> 'f"
  fneg :: "'f \<Rightarrow> 'f"
  ftwo :: "'f"
  fcos :: "'f \<Rightarrow> 'f"
  fsin :: "'f \<Rightarrow> 'f"
  fradians :: "'f \<Rightarrow> 'f"
  fixed15 :: "'f \<Rightarrow> string"

definition rstrip_chars :: "string \<Rightarrow> string \<Rightarrow> string" where
  "rstrip_chars cs s = rev (dropWhile (\<lambda>c. c \<in> set cs) (rev s))"

definition format_float :: "'f float_ops \<Rightarrow> 'f \<Rightarrow> string" where
  "format_float ops v =
     (let t = fixed15 ops v;
          t = rstrip_chars ''.'' (rstrip_chars ''0'' t)
      in if t \<noteq> [] then t else ''0'')"

definition rotate_points ::
  "'f float_ops \<Rightarrow> 'f \<Rightarrow> 'f \<Rightarrow> 'f \<Rightarrow> 'f \<Rightarrow> 'f \<Rightarrow> ('f \<times> 'f) list" where
  "rotate_points ops cx cy w h angle_rad =
     (let half_w = fdiv ops w (ftwo ops);
          half_h = fdiv ops h (ftwo ops);
          cos_a = fcos ops angle_rad;
          sin_a = fsin ops angle_rad;
          rel_points = [(fneg ops half_w, fneg ops half_h),
                        (half_w, fneg ops half_h),
                        (half_w, half_h),
                        (fneg ops half_w, half_h)]
      in map (\<lambda>(px, py).
                let rx = fsub ops (fmul ops px cos_a) (fmul ops py sin_a);
                    ry = fadd ops (fmul ops px sin_a) (fmul ops py cos_a)
                in (fadd ops cx rx, fadd ops cy ry))
             rel_points)"

text \<open>
  What is asked of the float operations where a statement needs their accuracy: the
  standard model of rounded arithmetic.  \<open>fin\<close> holds of the finite floats and \<open>fval\<close> is
  the real number a finite float stands for.  An addition, subtraction, multiplication or
  division of finite floats whose exact result is at most \<open>big\<close> in absolute value
  returns a finite float within the relative error \<open>u\<close> plus the absolute error \<open>eta\<close> of
  the exact result; negation and the literal \<open>2.0\<close> are exact; \<open>cos\<close> and \<open>sin\<close> of a finite
  float are finite and within \<open>u\<close> of the true value.  (For the binary64 floats of Python,
  rounding to nearest gives the four arithmetic operations \<open>u = 2^-53\<close> and
  \<open>eta = 2^-1075\<close>, with \<open>big\<close> the largest finite float; a C library whose \<open>cos\<close> and
  \<open>sin\<close> are right to one unit in the last place meets the whole with \<open>u = 2^-52\<close>.)
\<close>

definition accurate ::
  "'f float_ops \<Rightarrow> ('f \<Rightarrow> bool) \<Rightarrow> ('f \<Rightarrow> real) \<Rightarrow> real \<Rightarrow> real \<Rightarrow> real \<Rightarrow> bool" where
  "accurate ops fin fval u eta big =
     (fin (ftwo ops) \<and> fval (ftwo ops) = 2
      \<and> (\<forall>a. fin a \<longrightarrow> fin (fneg ops a) \<and> fval (fneg ops a) = - fval a)
      \<and> (\<forall>a b. fin a \<and> fin b \<and> \<bar>fval a + fval b\<bar> \<le> big \<longrightarrow>
             fin (fadd ops a b)
             \<and> \<bar>fval (fadd ops a b) - (fval a + fval b)\<bar> \<le> u * \<bar>fval a + fval b\<bar> + eta)
      \<and> (\<forall>a b. fin a \<and> fin b \<and> \<bar>fval a - fval b\<bar> \<le> big \<longrightarrow>
             fin (fsub ops a b)
             \<and> \<bar>fval (fsub ops a b) - (fval a - fval b)\<bar> \<le> u * \<bar>fval a - fval b\<bar> + eta)
      \<and> (\<forall>a b. fin a \<and> fin b \<and> \<bar>fval a * fval b\<bar> \<le> big \<longrightarrow>
             fin (fmul ops a b)
             \<and> \<bar>fval (fmul ops a b) - fval a * fval b\<bar> \<le> u * \<bar>fval a * fval b\<bar> + eta)
      \<and> (\<forall>a b. fin a \<and> fin b \<and> fval b \<noteq> 0 \<and> \<bar>fval a / fval b\<bar> \<le> big \<longrightarrow>
             fin (fdiv ops a b)
             \<and> \<bar>fval (fdiv ops a b) - fval a / fval b\<bar> \<le> u * \<bar>fval a / fval b\<bar> + eta)
      \<and> (\<forall>a. fin a \<longrightarrow> fin (fcos ops a) \<and> \<bar>fval (fcos ops a) - cos (fval a)\<bar> \<le> u)
      \<and> (\<forall>a. fin a \<longrightarrow> fin (fsin ops a) \<and> \<bar>fval (fsin ops a) - sin (fval a)\<bar> \<le> u))"

definition convert_line ::
  "'f float_ops \<Rightarrow> string list \<Rightarrow> string \<Rightarrow> 'f \<Rightarrow> string \<Rightarrow> error + string" where
  "convert_line ops parts angle_format default_angle order =
     (if length parts < 5 then Inl TooFewFields
      else if length parts = 9 then Inr (join '' '' parts)
      else
        let cls = parts ! 0
        in case (parse_float ops (parts ! 1), parse_float ops (parts ! 2),
                 parse_float ops (parts ! 3), parse_float ops (parts ! 4),
                 (if length parts \<ge> 6 then parse_float ops (parts ! 5)
                  else Some default_angle)) of
             (Some cx, Some cy, Some w, Some h, Some angle) \<Rightarrow>
               (let angle_rad = (if angle_format = ''degrees'' then fradians ops angle
                                 else angle);
                    corners = rotate_points ops cx cy w h angle_rad;
                    flattened =
                      (if order = ''grouped''
                       then [cls] @ map (\<lambda>(x, _). format_float ops x) corners
                                  @ map (\<lambda>(_, y). format_float ops y) corners
                       else [cls] @ concat (map (\<lambda>(x, y). [format_float ops x,
                                                            format_float ops y]) corners))
                in Inr (join '' '' flattened))
           | _ \<Rightarrow> Inl (BadFloats parts))"

text \<open>The loop of \<open>process_file\<close>; an error of \<open>convert_line\<close> leaves the loop at once,
  wrapped with the path of the file.\<close>

fun process_loop ::
  "'f float_ops \<Rightarrow> path \<Rightarrow> string \<Rightarrow> 'f \<Rightarrow> string \<Rightarrow> string list
     \<Rightarrow> string list \<Rightarrow> bool \<Rightarrow> error + (string list \<times> bool)" where
  "process_loop ops path angle_format default_angle order [] new_lines changed =
     Inr (new_lines, changed)"
| "process_loop ops path angle_format default_angle order (line # rest) new_lines changed =
     (let stripped = strip line
      in if stripped = []
         then process_loop ops path angle_format default_angle order rest new_lines changed
         else
           case convert_line ops (split_ws stripped) angle_format default_angle order of
             Inl err \<Rightarrow> Inl (ErrorInFile path err)
           | Inr converted \<Rightarrow>
               process_loop ops path angle_format default_angle order rest
                 (new_lines @ [converted]) (changed \<or> converted \<noteq> stripped))"

text \<open>\<open>process_file\<close> returns its result and the files as it leaves them; the message of
  a dry run goes to the terminal and is left out.\<close>

definition process_file ::
  "'f float_ops \<Rightarrow> fs \<Rightarrow> path \<Rightarrow> string \<Rightarrow> 'f \<Rightarrow> string \<Rightarrow> bool \<Rightarrow> (error + bool) \<times> fs" where
  "process_file ops fs path angle_format default_angle order dry_run =
     (case read_text fs path of
        Inl e \<Rightarrow> (Inl e, fs)
      | Inr text \<Rightarrow>
          let lines = splitlines text;
              ending_newline = ends_with_newline text
          in case process_loop ops path angle_format default_angle order lines [] False of
               Inl e \<Rightarrow> (Inl e, fs)
             | Inr (new_lines, changed) \<Rightarrow>
                 if changed then
                   (if dry_run then (Inr changed, fs)
                    else
                      let new_text = join [LF] new_lines
                                     @ (if ending_newline \<and> new_lines \<noteq> [] then [LF] else [])
                      in case write_text fs path new_text of
                           Inl e \<Rightarrow> (Inl e, fs)
                         | Inr fs' \<Rightarrow> (Inr changed, fs'))
                 else (Inr changed, fs))"

text \<open>
  An instance to run the model on concrete inputs: a parser for plain decimal literals (an
  optional sign, digits, an optional point and digits), which Python's \<open>float\<close> accepts
  among others, and arithmetic without rounding.  The strings used below that the parser
  rejects, such as \<open>abc\<close>, are strings on which \<open>float\<close> raises \<open>ValueError\<close>.  The
  arithmetic is not that of floats: the instance serves on lines that are passed through
  or refused before anything is computed, as the operations that meet \<open>accurate\<close> with no
  error at all, and on a box of width and height zero, where floats compute the same.
\<close>

definition digit_val :: "char \<Rightarrow> nat option" where
  "digit_val c =
     (if CHR ''0'' \<le> c \<and> c \<le> CHR ''9'' then Some (of_char c - 48) else None)"

fun digits_val :: "string \<Rightarrow> nat \<Rightarrow> nat option" where
  "digits_val [] acc = Some acc"
| "digits_val (c # cs) acc =
     (case digit_val c of None \<Rightarrow> None | Some d \<Rightarrow> digits_val cs (10 * acc + d))"

definition parse_unsigned :: "string \<Rightarrow> real option" where
  "parse_unsigned s =
     (let ip = takeWhile (\<lambda>c. c \<noteq> CHR ''.'') s;
          r = dropWhile (\<lambda>c. c \<noteq> CHR ''.'') s;
          fp = (if r = [] then [] else tl r)
      in if ip @ fp = [] then None
         else case (digits_val ip 0, digits_val fp 0) of
                (Some i, Some f) \<Rightarrow> Some (of_nat i + of_nat f / 10 ^ length fp)
              | _ \<Rightarrow> None)"

definition parse_decimal :: "string \<Rightarrow> real option" where
  "parse_decimal s =
     (case s of
        [] \<Rightarrow> None
      | c # cs \<Rightarrow>
          if c = CHR ''-'' then map_option uminus (parse_unsigned cs)
          else if c = CHR ''+'' then parse_unsigned cs
          else parse_unsigned s)"

definition real_ops :: "real float_ops" where
  "real_ops =
     \<lparr> parse_float = parse_decimal,
       fadd = (+), fsub = (-), fmul = (*), fdiv = (/), fneg = uminus, ftwo = 2,
       fcos = cos, fsin = sin,
       fradians = (\<lambda>d. d * pi / 180),
       fixed15 = (\<lambda>_. []) \<rparr>"

section \<open>Inference service (api/index.py): the predict endpoint\<close>

text \<open>
  The image library and the detector are external; the endpoint is modelled over a record
  of what it calls.  \<open>open_image\<close> is \<open>Image.open(io.BytesIO(contents)).convert("RGB")\<close>,
  \<open>None\<close> where it raises; \<open>model_predict\<close> is \<open>model.predict(image, imgsz=1024,
  conf=0.25, verbose=False)[0]\<close>; \<open>plot_jpeg\<close> is the annotated image saved as JPEG;
  \<open>count_boxes\<close> is \<open>len(prediction.boxes)\<close>, \<open>None\<close> where the prediction is falsy or
  has no boxes.  The state of the service records every image handed to the model.  The
  elapsed time between the two clock readings, formatted with three decimals, is an
  argument.
\<close>

record ('img, 'pred) detector =
  open_image :: "string \<Rightarrow> 'img option"
  model_predict :: "'img \<Rightarrow> 'pred"
  plot_jpeg :: "'pred \<Rightarrow> string"
  count_boxes :: "'pred \<Rightarrow> nat option"

record 'img service =
  model_calls :: "'img list"

record response =
  body :: string
  media_type :: string
  headers :: "(string \<times> string) list"

fun str_nat_aux :: "nat \<Rightarrow> nat \<Rightarrow> string \<Rightarrow> string" where
  "str_nat_aux 0 n acc = acc"
| "str_nat_aux (Suc fuel) n acc =
     (let acc' = char_of (48 + n mod 10) # acc
      in if n < 10 then acc' else str_nat_aux fuel (n div 10) acc')"

definition str_nat :: "nat \<Rightarrow> string" where
  "str_nat n = str_nat_aux (Suc n) n []"

definition predict ::
  "('img, 'pred) detector \<Rightarrow> string \<Rightarrow> string \<Rightarrow> 'img service \<Rightarrow> string
     \<Rightarrow> (error + response) \<times> 'img service" where
  "predict det model_path inference_time st contents =
     (if contents = [] then (Inl (HTTPException 400 ''Nenhum arquivo foi enviado.''), st)
      else
        case open_image det contents of
          None \<Rightarrow>
            (Inl (HTTPException 400
                   (''N'' @ [CHR 0xE3] @ ''o foi poss'' @ [CHR 0xED] @ ''vel abrir a imagem.'')),
             st)
        | Some img \<Rightarrow>
            let prediction = model_predict det img;
                st' = st\<lparr>model_calls := model_calls st @ [img]\<rparr>;
                buffer = plot_jpeg det prediction;
                hs = [(''X-Inference-Time'', inference_time),
                      (''X-Detections'',
                       str_nat (case count_boxes det prediction of Some n \<Rightarrow> n | None \<Rightarrow> 0)),
                      (''X-Model-Path'', model_path)]
            in (Inr \<lparr>body = buffer, media_type = ''image/jpeg'', headers = hs\<rparr>, st'))"

text \<open>A stand-in for the two libraries, to run the endpoint on concrete bytes: it opens
  the byte strings that start with the JPEG marker \<open>FF D8\<close> and finds one box in each.\<close>

definition stub_detector :: "(string, nat) detector" where
  "stub_detector =
     \<lparr> open_image = (\<lambda>b. if take 2 b = [CHR 0xFF, CHR 0xD8] then Some b else None),
       model_predict = (\<lambda>_. 1),
       plot_jpeg = (\<lambda>_. [CHR 0xFF, CHR 0xD8, CHR 0xFF, CHR 0xD9]),
       count_boxes = (\<lambda>n. Some n) \<rparr>"

section \<open>Dataset splitter (split_yolo_obb.py)\<close>
















section \<open>Rectangular-box to polygon converter (convert_yolo_bbox_to_polygon.py)\<close>

text \<open>
  A finite \<open>Decimal\<close> is modelled by its value, a rational.  Each arithmetic operation of
  the \<open>decimal\<close> module returns the exact result rounded to the precision of the context
  (\<open>getcontext().prec = 28\<close> significant digits, rounding half to even), which is what
  \<open>context_round\<close> computes: \<open>adjusted r\<close> is the exponent of the leading digit of \<open>r\<close>.
  The exponent limits of the context and the special values (NaN, infinities) are left
  out, and the script divides by \<open>Decimal(2)\<close> only.
\<close>

function ndigits :: "int \<Rightarrow> nat" where
  "ndigits n = (if n < 10 then 1 else Suc (ndigits (n div 10)))"
  by pat_completeness auto
termination
  by (relation "measure nat") auto

declare ndigits.simps [simp del]

definition pow10 :: "int \<Rightarrow> rat" where
  "pow10 k = (if 0 \<le> k then 10 ^ nat k else 1 / 10 ^ nat (- k))"

definition adjusted :: "rat \<Rightarrow> int" where
  "adjusted r =
     (case quotient_of r of
        (p, q) \<Rightarrow>
          let k = int (ndigits \<bar>p\<bar>) - int (ndigits q)
          in if pow10 k \<le> \<bar>r\<bar> then k else k - 1)"

definition round_half_even :: "rat \<Rightarrow> int" where
  "round_half_even y =
     (let f = \<lfloor>y\<rfloor>; d = y - of_int f
      in if d < 1 / 2 then f
         else if 1 / 2 < d then f + 1
         else if even f then f else f + 1)"

definition prec :: nat where
  "prec = 28"

definition context_round :: "rat \<Rightarrow> rat" where
  "context_round r =
     (if r = 0 then 0
      else
        let s = int prec - 1 - adjusted r;
            n = round_half_even (\<bar>r\<bar> * pow10 s)
        in (if r < 0 then - of_int n else of_int n) / pow10 s)"

definition dec_add :: "rat \<Rightarrow> rat \<Rightarrow> rat" where
  "dec_add a b = context_round (a + b)"

definition dec_sub :: "rat \<Rightarrow> rat \<Rightarrow> rat" where
  "dec_sub a b = context_round (a - b)"

definition dec_div :: "rat \<Rightarrow> rat \<Rightarrow> rat" where
  "dec_div a b = context_round (a / b)"

text \<open>\<open>to_polygon\<close> returns the label and the eight values in the order in which the script
  joins their \<open>str\<close>; the \<open>str\<close> of a \<open>Decimal\<close> reads back as the same value.\<close>

definition to_polygon ::
  "string \<Rightarrow> rat \<Rightarrow> rat \<Rightarrow> rat \<Rightarrow> rat \<Rightarrow> string \<times> rat list" where
  "to_polygon label x_center y_center width height =
     (let half_w = dec_div width 2;
          half_h = dec_div height 2;
          x_min = dec_sub x_center half_w;
          x_max = dec_add x_center half_w;
          y_min = dec_sub y_center half_h;
          y_max = dec_add y_center half_h
      in (label, [x_min, x_max, x_max, x_min, y_min, y_min, y_max, y_max]))"

text \<open>A value written with at most twenty decimals and smaller than a million in absolute
  value; on such values no operation of \<open>to_polygon\<close> has to round.\<close>

definition short_decimal :: "rat \<Rightarrow> bool" where
  "short_decimal v = (of_int \<lfloor>v * 10 ^ 20\<rfloor> = v * 10 ^ 20 \<and> \<bar>v\<bar> < 10 ^ 6)"

section \<open>Facts about the string primitives\<close>

lemma linebreak_is_space: "is_linebreak c \<Longrightarrow> is_space c"
  by (auto simp: is_linebreak_def is_space_def)

lemma is_space_blank [simp]: "is_space CHR '' ''"
  by (simp add: is_space_def)

lemma is_space_LF [simp]: "is_space LF"
  by (simp add: is_space_def)

lemma is_linebreak_LF [simp]: "is_linebreak LF"
  by (simp add: is_linebreak_def)

lemma is_linebreak_CR [simp]: "is_linebreak CR"
  by (simp add: is_linebreak_def)

lemma is_token_zero [simp]: "is_token ''0''"
  by (simp add: is_token_def is_space_def)

lemma split_ws_Nil [simp]: "split_ws [] = []"
  by (simp add: split_ws.simps)

lemma split_ws_space_Cons [simp]: "is_space c \<Longrightarrow> split_ws (c # s) = split_ws s"
  by (subst split_ws.simps, subst (2) split_ws.simps) simp

lemma split_ws_all_space: "\<forall>c \<in> set s. is_space c \<Longrightarrow> split_ws s = []"
  by (induction s) auto

lemma split_ws_token_append:
  assumes "is_token p" and "r = [] \<or> is_space (hd r)"
  shows "split_ws (p @ r) = p # split_ws r"
proof -
  from assms(1) obtain c p' where p: "p = c # p'" and c: "\<not> is_space c"
    by (cases p) (auto simp: is_token_def)
  have all: "\<forall>c \<in> set p. \<not> is_space c" using assms(1) by (simp add: is_token_def)
  have dw: "dropWhile is_space (p @ r) = p @ r" using p c by simp
  have tw: "takeWhile (\<lambda>c. \<not> is_space c) (p @ r) = p"
    using all assms(2) by (cases r) (auto simp: takeWhile_append2)
  have dw2: "dropWhile (\<lambda>c. \<not> is_space c) (p @ r) = r"
    using all assms(2) by (cases r) (auto simp: dropWhile_append2)
  have ne: "p \<noteq> []" using p by simp
  show ?thesis
    by (subst split_ws.simps) (simp add: dw tw dw2 Let_def ne)
qed

lemma split_ws_token: "is_token p \<Longrightarrow> split_ws p = [p]"
  using split_ws_token_append [of p "[]"] by simp

lemma split_ws_join:
  "\<forall>p \<in> set ps. is_token p \<Longrightarrow> split_ws (join '' '' ps) = ps"
proof (induction ps rule: induct_list012)
  case 1
  then show ?case by simp
next
  case (2 x)
  then show ?case by (simp add: split_ws_token)
next
  case (3 x y zs)
  have "split_ws (x @ ('' '' @ join '' '' (y # zs))) = x # split_ws ('' '' @ join '' '' (y # zs))"
    using "3.prems" by (intro split_ws_token_append) auto
  then show ?case using 3 by simp
qed

lemma split_ws_unfold:
  "dropWhile is_space s \<noteq> [] \<Longrightarrow>
   split_ws s = takeWhile (\<lambda>c. \<not> is_space c) (dropWhile is_space s)
                # split_ws (dropWhile (\<lambda>c. \<not> is_space c) (dropWhile is_space s))"
  by (subst split_ws.simps) (simp add: Let_def)

lemma split_ws_unfold_Nil: "dropWhile is_space s = [] \<Longrightarrow> split_ws s = []"
  by (subst split_ws.simps) simp

lemma split_ws_tokens: "p \<in> set (split_ws s) \<Longrightarrow> is_token p"
proof (induction s arbitrary: p rule: split_ws.induct)
  case (1 s)
  let ?s' = "dropWhile is_space s"
  show ?case
  proof (cases "?s' = []")
    case True
    then have "split_ws s = []" by (rule split_ws_unfold_Nil)
    with "1.prems" show ?thesis by simp
  next
    case False
    let ?t = "takeWhile (\<lambda>c. \<not> is_space c) ?s'"
    let ?d = "dropWhile (\<lambda>c. \<not> is_space c) ?s'"
    have eq: "split_ws s = ?t # split_ws ?d"
      using False by (rule split_ws_unfold)
    have h: "\<not> is_space (hd ?s')" using False by (rule hd_dropWhile)
    obtain c r where cr: "?s' = c # r" using False by (cases ?s') blast+
    have "\<not> is_space c" using h unfolding cr by simp
    then have "?t = c # takeWhile (\<lambda>c. \<not> is_space c) r" unfolding cr by simp
    then have "?t \<noteq> []" by simp
    moreover have "\<forall>c \<in> set ?t. \<not> is_space c" by (blast dest: set_takeWhileD)
    ultimately have tok: "is_token ?t" unfolding is_token_def by blast
    from "1.prems" have "p = ?t \<or> p \<in> set (split_ws ?d)" unfolding eq by simp
    then show ?thesis
    proof
      assume "p = ?t" then show ?thesis using tok by simp
    next
      assume "p \<in> set (split_ws ?d)"
      then show ?thesis using False by (intro "1.IH"[OF refl]) 
    qed
  qed
qed

lemma split_ws_dropWhile: "split_ws (dropWhile is_space s) = split_ws s"
proof (cases "dropWhile is_space s = []")
  case True
  then show ?thesis by (simp add: split_ws_unfold_Nil)
next
  case False
  have idem: "dropWhile is_space (dropWhile is_space s) = dropWhile is_space s"
    by (rule dropWhile_idem)
  have "dropWhile is_space (dropWhile is_space s) \<noteq> []" using False by simp
  from split_ws_unfold [OF this] split_ws_unfold [OF False] show ?thesis
    by (simp only: idem)
qed

lemma split_ws_append_spaces:
  "\<forall>c \<in> set t. is_space c \<Longrightarrow> split_ws (s @ t) = split_ws s"
proof (induction s rule: split_ws.induct)
  case (1 s)
  let ?s' = "dropWhile is_space s"
  show ?case
  proof (cases "?s' = []")
    case True
    then have "\<forall>c \<in> set (s @ t). is_space c" using 1(2) by (auto simp: dropWhile_eq_Nil_conv)
    then have "split_ws (s @ t) = []" by (rule split_ws_all_space)
    moreover have "split_ws s = []" using True by (rule split_ws_unfold_Nil)
    ultimately show ?thesis by simp
  next
    case False
    let ?P = "\<lambda>c. \<not> is_space c"
    have d1: "dropWhile is_space (s @ t) = ?s' @ t"
      using False by (auto simp: dropWhile_append dropWhile_eq_Nil_conv)
    show ?thesis
    proof (cases "dropWhile ?P ?s' = []")
      case True
      then have allns: "\<forall>c \<in> set ?s'. \<not> is_space c" by (simp add: dropWhile_eq_Nil_conv)
      then have tok: "is_token ?s'" using False by (simp add: is_token_def)
      have "split_ws (s @ t) = split_ws (?s' @ t)"
        using split_ws_dropWhile [of "s @ t"] by (simp only: d1)
      also have "\<dots> = ?s' # split_ws t"
      proof (rule split_ws_token_append [OF tok])
        show "t = [] \<or> is_space (hd t)" using 1(2) by (cases t) simp_all
      qed
      also have "split_ws t = []" using 1(2) by (rule split_ws_all_space)
      also have "[?s'] = split_ws ?s'" using tok by (simp add: split_ws_token)
      also have "\<dots> = split_ws s" by (rule split_ws_dropWhile)
      finally show ?thesis .
    next
      case F2: False
      then have ex: "\<exists>c \<in> set ?s'. is_space c" by (auto simp: dropWhile_eq_Nil_conv)
      have t1: "takeWhile ?P (?s' @ t) = takeWhile ?P ?s'"
        using ex by (auto simp: takeWhile_append)
      have d2: "dropWhile ?P (?s' @ t) = dropWhile ?P ?s' @ t"
        using ex by (auto simp: dropWhile_append)
      have "dropWhile is_space (s @ t) \<noteq> []" using False by (simp add: d1)
      from split_ws_unfold [OF this]
      have "split_ws (s @ t) = takeWhile ?P ?s' # split_ws (dropWhile ?P ?s' @ t)"
        by (simp only: d1 t1 d2)
      also have "split_ws (dropWhile ?P ?s' @ t) = split_ws (dropWhile ?P ?s')"
        using "1.IH"[OF refl False] 1(2) by simp
      also have "takeWhile ?P ?s' # split_ws (dropWhile ?P ?s') = split_ws s"
        using split_ws_unfold [OF False] by simp
      finally show ?thesis .
    qed
  qed
qed

lemma strip_decomp:
  "dropWhile is_space s = strip s @ rev (takeWhile is_space (rev (dropWhile is_space s)))"
proof -
  let ?d = "dropWhile is_space s"
  have "rev ?d = takeWhile is_space (rev ?d) @ dropWhile is_space (rev ?d)" by simp
  then have "rev (rev ?d) = rev (takeWhile is_space (rev ?d) @ dropWhile is_space (rev ?d))"
    by (rule arg_cong)
  then show ?thesis unfolding strip_def rev_append rev_rev_ident .
qed

lemma split_ws_strip: "split_ws (strip s) = split_ws s"
proof -
  let ?d = "dropWhile is_space s"
  have "split_ws s = split_ws ?d" by (rule split_ws_dropWhile [symmetric])
  also have "\<dots> = split_ws (strip s @ rev (takeWhile is_space (rev ?d)))"
    by (rule arg_cong [OF strip_decomp])
  also have "\<dots> = split_ws (strip s)"
    by (rule split_ws_append_spaces) (auto dest: set_takeWhileD)
  finally show ?thesis by (rule sym)
qed

lemma strip_eq_Nil: "strip s = [] \<longleftrightarrow> (\<forall>c \<in> set s. is_space c)"
proof -
  have "strip s = [] \<longleftrightarrow> (\<forall>c \<in> set (dropWhile is_space s). is_space c)"
    by (simp add: strip_def dropWhile_eq_Nil_conv)
  also have "\<dots> \<longleftrightarrow> dropWhile is_space s = []"
    by (metis dropWhile_eq_Nil_conv hd_dropWhile list.set_sel(1) empty_iff empty_set)
  finally show ?thesis by (simp add: dropWhile_eq_Nil_conv)
qed

lemma split_ws_eq_Nil: "split_ws s = [] \<longleftrightarrow> (\<forall>c \<in> set s. is_space c)"
proof (cases "dropWhile is_space s = []")
  case True
  then show ?thesis by (simp add: split_ws_unfold_Nil dropWhile_eq_Nil_conv)
next
  case False
  then show ?thesis using split_ws_unfold [OF False] by (simp add: dropWhile_eq_Nil_conv)
qed

lemma split_ws_strip_nonempty: "strip s \<noteq> [] \<Longrightarrow> split_ws (strip s) \<noteq> []"
  by (simp add: split_ws_strip split_ws_eq_Nil strip_eq_Nil)

lemma splitlines_Nil [simp]: "splitlines [] = []"
  by (simp add: splitlines.simps)

lemma splitlines_line_LF:
  assumes "no_linebreak l"
  shows "splitlines (l @ LF # rest) = l # splitlines rest"
proof -
  let ?P = "\<lambda>c. \<not> is_linebreak c"
  have all: "\<forall>c \<in> set l. ?P c" using assms by (simp add: no_linebreak_def)
  have tw: "takeWhile ?P (l @ LF # rest) = l" using all by (simp add: takeWhile_append2)
  have dw: "dropWhile ?P (l @ LF # rest) = LF # rest" using all by (simp add: dropWhile_append2)
  have ab: "after_break (LF # rest) = rest" by (simp add: after_break_def)
  have ne: "l @ LF # rest \<noteq> []" by simp
  show ?thesis by (subst splitlines.simps) (simp only: ne tw dw ab if_False)
qed

lemma splitlines_single:
  assumes "no_linebreak l" and "l \<noteq> []"
  shows "splitlines l = [l]"
proof -
  let ?P = "\<lambda>c. \<not> is_linebreak c"
  have all: "\<forall>c \<in> set l. ?P c" using assms by (simp add: no_linebreak_def)
  have tw: "takeWhile ?P l = l" using all by simp
  have dw: "dropWhile ?P l = []" using all by simp
  have ab: "after_break [] = []" by (simp add: after_break_def)
  show ?thesis
    by (subst splitlines.simps) (simp only: assms(2) tw dw ab if_False splitlines_Nil)
qed

lemma splitlines_join_LF:
  "\<forall>l \<in> set ls. no_linebreak l \<Longrightarrow> ls \<noteq> [] \<Longrightarrow> splitlines (join [LF] ls @ [LF]) = ls"
proof (induction ls rule: induct_list012)
  case 1
  then show ?case by simp
next
  case (2 x)
  then show ?case using splitlines_line_LF [of x "[]"] by simp
next
  case (3 x y zs)
  have "splitlines (x @ LF # (join [LF] (y # zs) @ [LF])) = x # splitlines (join [LF] (y # zs) @ [LF])"
    using "3.prems" by (intro splitlines_line_LF) simp
  then show ?case using 3 by simp
qed

lemma splitlines_join:
  "\<forall>l \<in> set ls. no_linebreak l \<Longrightarrow>
   splitlines (join [LF] ls) = (if ls \<noteq> [] \<and> last ls = [] then butlast ls else ls)"
proof (induction ls rule: induct_list012)
  case 1
  then show ?case by simp
next
  case (2 x)
  then show ?case by (cases "x = []") (simp_all add: splitlines_single)
next
  case (3 x y zs)
  have "splitlines (x @ LF # join [LF] (y # zs)) = x # splitlines (join [LF] (y # zs))"
    using "3.prems" by (intro splitlines_line_LF) simp
  then show ?case using 3 by simp
qed

lemma splitlines_no_linebreak: "l \<in> set (splitlines s) \<Longrightarrow> no_linebreak l"
proof (induction s arbitrary: l rule: splitlines.induct)
  case (1 s)
  show ?case
  proof (cases "s = []")
    case True
    with "1.prems" show ?thesis by simp
  next
    case False
    let ?P = "\<lambda>c. \<not> is_linebreak c"
    have eq: "splitlines s = takeWhile ?P s # splitlines (after_break (dropWhile ?P s))"
      using False by (subst splitlines.simps) simp
    from "1.prems" have "l = takeWhile ?P s \<or> l \<in> set (splitlines (after_break (dropWhile ?P s)))"
      unfolding eq by simp
    then show ?thesis
    proof
      assume "l = takeWhile ?P s"
      then show ?thesis by (auto simp: no_linebreak_def dest: set_takeWhileD)
    next
      assume "l \<in> set (splitlines (after_break (dropWhile ?P s)))"
      then show ?thesis using False by (intro "1.IH") 
    qed
  qed
qed

lemma token_no_linebreak: "is_token p \<Longrightarrow> no_linebreak p"
  by (auto simp: is_token_def no_linebreak_def dest: linebreak_is_space)

lemma not_linebreak_blank [simp]: "\<not> is_linebreak CHR '' ''"
  by (simp add: is_linebreak_def)

lemma join_chars:
  "c \<in> set (join sep ls) \<Longrightarrow> c \<in> set sep \<or> (\<exists>l \<in> set ls. c \<in> set l)"
proof (induction ls rule: induct_list012)
  case 1
  then show ?case by simp
next
  case (2 x)
  then show ?case by simp
next
  case (3 x y zs)
  from "3.prems" have "c \<in> set x \<or> c \<in> set sep \<or> c \<in> set (join sep (y # zs))"
    by simp
  then show ?case using "3.IH"(2) by fastforce
qed

lemma join_blank_no_linebreak:
  assumes "\<forall>p \<in> set ps. no_linebreak p"
  shows "no_linebreak (join '' '' ps)"
  unfolding no_linebreak_def
proof
  fix c assume "c \<in> set (join '' '' ps)"
  then have "c \<in> set '' '' \<or> (\<exists>l \<in> set ps. c \<in> set l)" by (rule join_chars)
  then show "\<not> is_linebreak c"
  proof
    assume "c \<in> set '' ''"
    then have "c = CHR '' ''" by simp
    then show ?thesis by simp
  next
    assume "\<exists>l \<in> set ps. c \<in> set l"
    then show ?thesis using assms unfolding no_linebreak_def by blast
  qed
qed

lemma universal_newlines_no_CR: "CR \<notin> set s \<Longrightarrow> universal_newlines s = s"
  by (induction s rule: universal_newlines.induct) auto

lemma no_CR_universal_newlines: "CR \<notin> set (universal_newlines s)"
  by (induction s rule: universal_newlines.induct) auto

section \<open>Sync tool: what \<open>normalize_label\<close> does to a line\<close>

lemma normalize_loop_eq:
  "normalize_loop lines a out =
     out @ map (\<lambda>l. join '' '' (normalize_parts a (split_ws l)))
               (filter (\<lambda>l. strip l \<noteq> []) lines)"
  by (induction lines arbitrary: out) simp_all

lemma list_update_0_Cons: "ps \<noteq> [] \<Longrightarrow> ps[0 := v] = v # tl ps"
  by (cases ps) simp_all

lemma normalize_parts_Cons:
  "normalize_parts a (p # ps) =
     (if length ps = 4 then (''0'' # ps) @ [a]
      else if 5 \<le> length ps then (''0'' # ps)[5 := a]
      else ''0'' # ps)"
  by (simp add: normalize_parts_def Let_def)

lemma normalize_parts_hd: "parts \<noteq> [] \<Longrightarrow> hd (normalize_parts a parts) = ''0''"
proof (cases parts)
  case Nil
  assume "parts \<noteq> []" with Nil show ?thesis by simp
next
  case (Cons p ps)
  have "5 \<le> length ps \<Longrightarrow> hd ((''0'' # ps)[5 := a]) = ''0''"
    by (simp add: numeral_eq_Suc)
  then show ?thesis unfolding Cons normalize_parts_Cons by simp
qed

lemma normalize_parts_six:
  assumes "6 \<le> length parts"
  shows "normalize_parts a parts ! 5 = a"
    and "length (normalize_parts a parts) = length parts"
    and "drop 6 (normalize_parts a parts) = drop 6 parts"
    and "take 4 (tl (normalize_parts a parts)) = take 4 (tl parts)"
proof -
  obtain p ps where c: "parts = p # ps" using assms by (cases parts) auto
  then have l: "5 \<le> length ps" and l4: "length ps \<noteq> 4" using assms by auto
  have np: "normalize_parts a (p # ps) = (''0'' # ps)[5 := a]"
    unfolding normalize_parts_Cons using l l4 by simp
  show "normalize_parts a parts ! 5 = a" unfolding c np using l by simp
  show "length (normalize_parts a parts) = length parts" unfolding c np by simp
  show "drop 6 (normalize_parts a parts) = drop 6 parts"
    unfolding c np by (simp add: drop_update_cancel)
  have "(''0'' # ps)[5 := a] = ''0'' # ps[4 := a]" by (simp add: numeral_eq_Suc)
  then show "take 4 (tl (normalize_parts a parts)) = take 4 (tl parts)"
    unfolding c np by simp
qed

lemma normalize_parts_five:
  assumes "length parts = 5"
  shows "normalize_parts a parts = (''0'' # tl parts) @ [a]"
proof -
  obtain p ps where c: "parts = p # ps" using assms by (cases parts) auto
  then have "length ps = 4" using assms by simp
  then show ?thesis unfolding c normalize_parts_Cons by simp
qed

lemma normalize_parts_tokens:
  assumes "\<forall>p \<in> set parts. is_token p" and "is_token a"
  shows "\<forall>p \<in> set (normalize_parts a parts). is_token p"
proof (cases parts)
  case Nil
  then show ?thesis by (simp add: normalize_parts_def)
next
  case (Cons p ps)
  have z: "\<forall>q \<in> set (''0'' # ps). is_token q" using assms(1) Cons by simp
  have "\<forall>q \<in> set ((''0'' # ps)[5 := a]). is_token q"
    using z assms(2) set_update_subset_insert [of "''0'' # ps" 5 a] by blast
  then show ?thesis using z assms(2) unfolding Cons normalize_parts_Cons by simp
qed

lemma normalize_parts_short:
  assumes "parts \<noteq> []" and "length parts < 5"
  shows "normalize_parts a parts = ''0'' # tl parts"
proof -
  obtain p ps where c: "parts = p # ps" using assms(1) by (cases parts) auto
  then show ?thesis using assms(2) unfolding c normalize_parts_Cons by simp
qed

lemma normalize_parts_nonempty: "parts \<noteq> [] \<Longrightarrow> normalize_parts a parts \<noteq> []"
  by (cases parts) (simp_all add: normalize_parts_Cons)

lemma normalize_label_lines:
  assumes "is_token angle"
  shows "splitlines (normalize_label content angle)
           = map (\<lambda>l. join '' '' (normalize_parts angle (split_ws l)))
                 (filter (\<lambda>l. strip l \<noteq> []) (splitlines content))"
proof -
  let ?f = "\<lambda>l. join '' '' (normalize_parts angle (split_ws l))"
  let ?ins = "filter (\<lambda>l. strip l \<noteq> []) (splitlines content)"
  let ?outs = "map ?f ?ins"
  have tok: "\<And>l. \<forall>p \<in> set (normalize_parts angle (split_ws l)). is_token p"
    using assms by (intro normalize_parts_tokens) (auto dest: split_ws_tokens)
  have nl: "\<forall>ln \<in> set ?outs. no_linebreak ln"
  proof
    fix ln assume "ln \<in> set ?outs"
    then obtain l where o: "ln = ?f l" by auto
    show "no_linebreak ln"
      unfolding o using tok [of l]
      by (intro join_blank_no_linebreak) (blast dest: token_no_linebreak)
  qed
  have nonempty: "\<And>l. l \<in> set ?ins \<Longrightarrow> ?f l \<noteq> []"
  proof -
    fix l assume "l \<in> set ?ins"
    then have "strip l \<noteq> []" by simp
    then have "split_ws l \<noteq> []" by (simp add: split_ws_eq_Nil strip_eq_Nil)
    then have ne: "normalize_parts angle (split_ws l) \<noteq> []" by (rule normalize_parts_nonempty)
    have "split_ws (?f l) = normalize_parts angle (split_ws l)"
      by (rule split_ws_join) (rule tok)
    then show "?f l \<noteq> []" using ne by auto
  qed
  have nl_eq: "normalize_label content angle
                 = (if ends_with_newline content \<and> ?outs \<noteq> [] then join [LF] ?outs @ [LF]
                    else join [LF] ?outs)"
    by (simp add: normalize_label_def normalize_loop_eq Let_def)
  show ?thesis
  proof (cases "?outs = []")
    case True
    then show ?thesis unfolding nl_eq by simp
  next
    case False
    have "last ?outs \<in> set ?outs" using False by (rule last_in_set)
    then obtain l where "l \<in> set ?ins" and "last ?outs = ?f l" by auto
    then have lastne: "last ?outs \<noteq> []" using nonempty by simp
    have a: "splitlines (join [LF] ?outs @ [LF]) = ?outs"
      using nl False by (rule splitlines_join_LF)
    have "splitlines (join [LF] ?outs)
            = (if ?outs \<noteq> [] \<and> last ?outs = [] then butlast ?outs else ?outs)"
      using nl by (rule splitlines_join)
    then have b: "splitlines (join [LF] ?outs) = ?outs" using lastne by simp
    show ?thesis unfolding nl_eq using a b by (simp only: split: if_splits) simp
  qed
qed

text \<open>
  Claim C10, as the code has it.  When the configured angle is one token (not empty and
  free of white space, as the default \<open>0.0\<close> is), the text returned by \<open>normalize_label\<close>
  has one line for each input line that is not blank, in order, and the fields of the
  output line are these: the first field is \<open>0\<close>; for an input line of six or more
  fields the sixth field is the configured angle, whatever was there (the sixth value of a
  nine-field polygon line included), and the number of fields, the fields two to five and
  the fields after the sixth are those of the input line; for a five-field input line the
  fields two to five are kept and the angle is appended; a shorter line only has its
  first field replaced.  The output line is its fields joined by single blanks.
\<close>

theorem normalize_label_fields:
  assumes "is_token angle"
  shows "length (splitlines (normalize_label content angle))
           = length (filter (\<lambda>l. strip l \<noteq> []) (splitlines content))
         \<and> (\<forall>i < length (filter (\<lambda>l. strip l \<noteq> []) (splitlines content)).
               let parts = split_ws (filter (\<lambda>l. strip l \<noteq> []) (splitlines content) ! i);
                   out = splitlines (normalize_label content angle) ! i;
                   fields = split_ws out
               in out = join '' '' fields
                  \<and> hd fields = ''0''
                  \<and> (6 \<le> length parts \<longrightarrow>
                        length fields = length parts \<and> fields ! 5 = angle
                        \<and> take 4 (tl fields) = take 4 (tl parts)
                        \<and> drop 6 fields = drop 6 parts)
                  \<and> (length parts = 5 \<longrightarrow> fields = (''0'' # tl parts) @ [angle])
                  \<and> (length parts < 5 \<longrightarrow> fields = ''0'' # tl parts))"
proof -
  let ?f = "\<lambda>l. join '' '' (normalize_parts angle (split_ws l))"
  let ?ins = "filter (\<lambda>l. strip l \<noteq> []) (splitlines content)"
  note sl = normalize_label_lines [OF assms, of content]
  have len: "length (splitlines (normalize_label content angle)) = length ?ins"
    unfolding sl by simp
  have tok: "\<And>l. \<forall>p \<in> set (normalize_parts angle (split_ws l)). is_token p"
    using assms by (intro normalize_parts_tokens) (auto dest: split_ws_tokens)
  have "\<forall>i < length ?ins.
               let parts = split_ws (?ins ! i);
                   out = splitlines (normalize_label content angle) ! i;
                   fields = split_ws out
               in out = join '' '' fields
                  \<and> hd fields = ''0''
                  \<and> (6 \<le> length parts \<longrightarrow>
                        length fields = length parts \<and> fields ! 5 = angle
                        \<and> take 4 (tl fields) = take 4 (tl parts)
                        \<and> drop 6 fields = drop 6 parts)
                  \<and> (length parts = 5 \<longrightarrow> fields = (''0'' # tl parts) @ [angle])
                  \<and> (length parts < 5 \<longrightarrow> fields = ''0'' # tl parts)"
  proof (intro allI impI)
    fix i assume i: "i < length ?ins"
    let ?l = "?ins ! i"
    let ?parts = "split_ws ?l"
    let ?np = "normalize_parts angle ?parts"
    have "?l \<in> set ?ins" using i by (rule nth_mem)
    then have "strip ?l \<noteq> []" by simp
    then have ne: "?parts \<noteq> []" by (simp add: split_ws_eq_Nil strip_eq_Nil)
    have out: "splitlines (normalize_label content angle) ! i = join '' '' ?np"
      unfolding sl using i by simp
    have fields: "split_ws (join '' '' ?np) = ?np"
      by (rule split_ws_join) (rule tok)
    have h: "hd ?np = ''0''" using ne by (rule normalize_parts_hd)
    have six: "6 \<le> length ?parts \<longrightarrow>
                 length ?np = length ?parts \<and> ?np ! 5 = angle
                 \<and> take 4 (tl ?np) = take 4 (tl ?parts) \<and> drop 6 ?np = drop 6 ?parts"
      using normalize_parts_six [of ?parts angle] by blast
    have five: "length ?parts = 5 \<longrightarrow> ?np = (''0'' # tl ?parts) @ [angle]"
      using normalize_parts_five [of ?parts angle] by blast
    have short: "length ?parts < 5 \<longrightarrow> ?np = ''0'' # tl ?parts"
      using normalize_parts_short [OF ne, of angle] by blast
    show "let parts = split_ws (?ins ! i);
              out = splitlines (normalize_label content angle) ! i;
              fields = split_ws out
          in out = join '' '' fields
             \<and> hd fields = ''0''
             \<and> (6 \<le> length parts \<longrightarrow>
                   length fields = length parts \<and> fields ! 5 = angle
                   \<and> take 4 (tl fields) = take 4 (tl parts)
                   \<and> drop 6 fields = drop 6 parts)
             \<and> (length parts = 5 \<longrightarrow> fields = (''0'' # tl parts) @ [angle])
             \<and> (length parts < 5 \<longrightarrow> fields = ''0'' # tl parts)"
      unfolding Let_def out fields using h six five short by blast
  qed
  with len show ?thesis by (rule conjI)
qed

lemma normalize_label_example:
  "normalize_label (''3 0.5 0.5 0.2 0.1 1.57 9 8 7'' @ [LF] @ ''  '' @ [LF]
                    @ ''7 0.1 0.2 0.3 0.4'' @ [LF]) ''0.0''
     = ''0 0.5 0.5 0.2 0.1 0.0 9 8 7'' @ [LF] @ ''0 0.1 0.2 0.3 0.4 0.0'' @ [LF]"
  by code_simp

theorem normalize_label_fields_witness:
  "is_token ''0.0''
   \<and> length (splitlines (normalize_label (''3 0.5 0.5 0.2 0.1 1.57 9 8 7'' @ [LF] @ ''  '' @ [LF]
                                          @ ''7 0.1 0.2 0.3 0.4'' @ [LF]) ''0.0''))
       = length (filter (\<lambda>l. strip l \<noteq> [])
                   (splitlines (''3 0.5 0.5 0.2 0.1 1.57 9 8 7'' @ [LF] @ ''  '' @ [LF]
                                @ ''7 0.1 0.2 0.3 0.4'' @ [LF])))
   \<and> normalize_label (''3 0.5 0.5 0.2 0.1 1.57 9 8 7'' @ [LF] @ ''  '' @ [LF]
                       @ ''7 0.1 0.2 0.3 0.4'' @ [LF]) ''0.0''
       = ''0 0.5 0.5 0.2 0.1 0.0 9 8 7'' @ [LF] @ ''0 0.1 0.2 0.3 0.4 0.0'' @ [LF]"
proof -
  have tok: "is_token ''0.0''" by code_simp
  from normalize_label_fields [OF tok, of "''3 0.5 0.5 0.2 0.1 1.57 9 8 7'' @ [LF] @ ''  '' @ [LF]
                                          @ ''7 0.1 0.2 0.3 0.4'' @ [LF]"]
  show ?thesis using tok normalize_label_example by blast
qed

text \<open>With the empty string as the angle, the sixth field of the output line is the
  seventh field of the input line, not the configured value, and a field is lost.\<close>

theorem normalize_label_empty_angle_counterexample:
  "normalize_label ''1 2 3 4 5 6 7'' [] = ''0 2 3 4 5  7''
   \<and> split_ws ''0 2 3 4 5  7'' = [''0'', ''2'', ''3'', ''4'', ''5'', ''7'']
   \<and> length (split_ws ''1 2 3 4 5 6 7'') = 7
   \<and> [''0'', ''2'', ''3'', ''4'', ''5'', ''7''] ! 5 \<noteq> ([] :: string)"
  by code_simp

section \<open>Class and angle normalizer: lines written and idempotence\<close>

lemma rewrite_loop_eq:
  "rewrite_loop lines upd ch =
     (upd @ map rewrite_line lines, ch \<or> (\<exists>l \<in> set lines. line_changes l))"
proof (induction lines arbitrary: upd ch)
  case Nil
  show ?case by simp
next
  case (Cons l ls)
  show ?case
  proof (cases "strip l = []")
    case True
    then show ?thesis
      by (simp add: Cons.IH rewrite_line_def line_changes_def)
  next
    case False
    obtain ps c where rp: "rewrite_parts (split_ws (strip l)) = (ps, c)"
      by (cases "rewrite_parts (split_ws (strip l))")
    show ?thesis
      using False rp by (auto simp: Cons.IH rewrite_line_def line_changes_def)
  qed
qed

lemma rewrite_parts_eq:
  assumes "parts \<noteq> []"
  shows "rewrite_parts parts = (''0'' # take 4 (tl parts), hd parts \<noteq> ''0'' \<or> 5 < length parts)"
proof -
  obtain p ps where c: "parts = p # ps" using assms by (cases parts) auto
  have t: "take 5 (''0'' # ps) = ''0'' # take 4 ps" by (simp add: numeral_eq_Suc)
  have le: "\<not> 4 < length ps \<Longrightarrow> take 4 ps = ps" by simp
  show ?thesis
    unfolding c rewrite_parts_def Let_def
    by (cases "p = ''0''") (auto simp: t le)
qed

lemma rewrite_line_fields:
  assumes "strip l \<noteq> []"
  shows "rewrite_line l = join '' '' (''0'' # take 4 (tl (split_ws l)))"
proof -
  have ne: "split_ws (strip l) \<noteq> []" using assms by (rule split_ws_strip_nonempty)
  show ?thesis
    using assms rewrite_parts_eq [OF ne] by (simp add: rewrite_line_def split_ws_strip)
qed

lemma rewritten_fields_tokens: "\<forall>p \<in> set (''0'' # take 4 (tl (split_ws l))). is_token p"
proof
  fix p assume "p \<in> set (''0'' # take 4 (tl (split_ws l)))"
  then have "p = ''0'' \<or> p \<in> set (take 4 (tl (split_ws l)))" by simp
  then show "is_token p"
  proof
    assume "p = ''0''" then show ?thesis by simp
  next
    assume "p \<in> set (take 4 (tl (split_ws l)))"
    then have "p \<in> set (tl (split_ws l))" by (rule in_set_takeD)
    then have "p \<in> set (split_ws l)" by (cases "split_ws l") auto
    then show ?thesis by (rule split_ws_tokens)
  qed
qed

lemma split_ws_rewrite_line:
  assumes "strip l \<noteq> []"
  shows "split_ws (rewrite_line l) = ''0'' # take 4 (tl (split_ws l))"
  unfolding rewrite_line_fields [OF assms]
  by (rule split_ws_join) (rule rewritten_fields_tokens)

lemma rewrite_line_blank: "strip l = [] \<Longrightarrow> rewrite_line l = l"
  by (simp add: rewrite_line_def)

lemma rewrite_line_stable: "\<not> line_changes (rewrite_line l)"
proof (cases "strip l = []")
  case True
  then show ?thesis by (simp add: rewrite_line_def line_changes_def)
next
  case False
  let ?ps = "''0'' # take 4 (tl (split_ws l))"
  have sp: "split_ws (strip (rewrite_line l)) = ?ps"
    using split_ws_rewrite_line [OF False] by (simp add: split_ws_strip)
  have "rewrite_parts ?ps = (''0'' # take 4 (tl ?ps), hd ?ps \<noteq> ''0'' \<or> 5 < length ?ps)"
    by (rule rewrite_parts_eq) simp
  then have "\<not> snd (rewrite_parts ?ps)" by simp
  then show ?thesis by (simp add: line_changes_def sp)
qed

lemma rewrite_line_no_linebreak:
  assumes "no_linebreak l"
  shows "no_linebreak (rewrite_line l)"
proof (cases "strip l = []")
  case True
  then show ?thesis using assms by (simp add: rewrite_line_def)
next
  case False
  have "no_linebreak (join '' '' (''0'' # take 4 (tl (split_ws l))))"
    using rewritten_fields_tokens [of l]
    by (intro join_blank_no_linebreak) (blast dest: token_no_linebreak)
  then show ?thesis by (simp add: rewrite_line_fields [OF False])
qed

lemma rewrite_line_eq_Nil: "rewrite_line l = [] \<Longrightarrow> l = []"
proof (cases "strip l = []")
  case True
  assume "rewrite_line l = []"
  then show ?thesis using True by (simp add: rewrite_line_def)
next
  case False
  assume e: "rewrite_line l = []"
  have "split_ws (rewrite_line l) \<noteq> []" using split_ws_rewrite_line [OF False] by simp
  then show ?thesis using e by simp
qed

lemma read_text_no_CR: "read_text fs p = Inr text \<Longrightarrow> CR \<notin> set text"
  by (auto simp: read_text_def no_CR_universal_newlines split: if_splits option.splits node.splits)

lemma read_after_write:
  assumes "write_text fs p t = Inr fs'"
  shows "read_text fs' p = Inr (universal_newlines t)"
proof -
  from assms have nd: "\<not> is_dir fs p" and fs': "fs' = AList.update p (File t) fs"
    by (auto simp: write_text_def write_bytes_def split: if_splits)
  from nd have "p \<noteq> []" by (simp add: is_dir_def)
  then show ?thesis by (simp add: read_text_def fs' update_conv')
qed

lemma rewrite_file_read:
  assumes "read_text fs p = Inr text"
  shows "rewrite_file fs p dry_run =
     (if (\<exists>l \<in> set (splitlines text). line_changes l) \<and> \<not> dry_run then
        (case write_text fs p (join [LF] (map rewrite_line (splitlines text))
                                @ (if ends_with_newline text then [LF] else [])) of
           Inl e \<Rightarrow> (Inl e, fs)
         | Inr fs' \<Rightarrow> (Inr True, fs'))
      else (Inr (\<exists>l \<in> set (splitlines text). line_changes l), fs))"
  using assms by (simp add: rewrite_file_def rewrite_loop_eq Let_def split: sum.splits)

lemma rewrite_file_ok_read:
  assumes "rewrite_file fs p dry_run = (Inr c, fs')"
  shows "\<exists>text. read_text fs p = Inr text"
  using assms by (cases "read_text fs p") (simp_all add: rewrite_file_def)

lemma new_text_lines:
  fixes e :: bool
  assumes nl: "\<forall>l \<in> set ls. no_linebreak l" and ne: "ls \<noteq> []"
  defines "new \<equiv> join [LF] (map rewrite_line ls) @ (if e then [LF] else [])"
  shows "CR \<notin> set new"
    and "splitlines new = map rewrite_line ls
         \<or> (last ls = [] \<and> splitlines new = butlast (map rewrite_line ls))"
proof -
  let ?upd = "map rewrite_line ls"
  have unl: "\<forall>l \<in> set ?upd. no_linebreak l"
    using nl by (auto intro: rewrite_line_no_linebreak)
  show "CR \<notin> set new"
  proof
    assume "CR \<in> set new"
    then have "CR \<in> set (join [LF] ?upd)" by (auto simp: new_def split: if_splits)
    then have "CR \<in> set [LF] \<or> (\<exists>l \<in> set ?upd. CR \<in> set l)" by (rule join_chars)
    then obtain l where "l \<in> set ?upd" and "CR \<in> set l" by auto
    then have "is_linebreak CR \<Longrightarrow> False" using unl unfolding no_linebreak_def by blast
    then show False by simp
  qed
  show "splitlines new = ?upd \<or> (last ls = [] \<and> splitlines new = butlast ?upd)"
  proof (cases e)
    case True
    have "splitlines (join [LF] ?upd @ [LF]) = ?upd"
      using unl ne by (intro splitlines_join_LF) simp_all
    then show ?thesis using True by (simp add: new_def)
  next
    case False
    have sj: "splitlines (join [LF] ?upd) = (if ?upd \<noteq> [] \<and> last ?upd = [] then butlast ?upd else ?upd)"
      using unl by (rule splitlines_join)
    show ?thesis
    proof (cases "last ?upd = []")
      case True
      then have "rewrite_line (last ls) = []" using ne by (simp add: last_map)
      then have "last ls = []" by (rule rewrite_line_eq_Nil)
      then show ?thesis using sj True ne False by (simp add: new_def)
    next
      case F: False
      then show ?thesis using sj False by (simp add: new_def)
    qed
  qed
qed

lemma rewrite_file_written:
  assumes "rewrite_file fs p False = (Inr True, fs')"
  shows "\<exists>old new. read_text fs p = Inr old \<and> read_text fs' p = Inr new
           \<and> splitlines old \<noteq> []
           \<and> (splitlines new = map rewrite_line (splitlines old)
                \<or> (last (splitlines old) = []
                    \<and> splitlines new = butlast (map rewrite_line (splitlines old))))"
proof -
  from rewrite_file_ok_read [OF assms] obtain old where rd: "read_text fs p = Inr old" ..
  let ?ls = "splitlines old"
  let ?new = "join [LF] (map rewrite_line ?ls) @ (if ends_with_newline old then [LF] else [])"
  have eq: "rewrite_file fs p False =
     (if (\<exists>l \<in> set ?ls. line_changes l) \<and> \<not> False then
        (case write_text fs p ?new of Inl e \<Rightarrow> (Inl e, fs) | Inr fs' \<Rightarrow> (Inr True, fs'))
      else (Inr (\<exists>l \<in> set ?ls. line_changes l), fs))"
    by (rule rewrite_file_read [OF rd])
  have ch: "\<exists>l \<in> set ?ls. line_changes l"
    using assms eq by (auto split: if_splits)
  then have ne: "?ls \<noteq> []" by auto
  have wr: "write_text fs p ?new = Inr fs'"
    using assms eq ch by (auto split: sum.splits)
  have nl: "\<forall>l \<in> set ?ls. no_linebreak l" by (blast intro: splitlines_no_linebreak)
  have "CR \<notin> set ?new" using nl ne by (rule new_text_lines(1))
  then have "universal_newlines ?new = ?new" by (rule universal_newlines_no_CR)
  then have rd': "read_text fs' p = Inr ?new" using read_after_write [OF wr] by simp
  have "splitlines ?new = map rewrite_line ?ls
        \<or> (last ?ls = [] \<and> splitlines ?new = butlast (map rewrite_line ?ls))"
    using nl ne by (rule new_text_lines(2))
  then show ?thesis using rd rd' ne by blast
qed

text \<open>
  Claim C3.  The normalizer is idempotent: when a run of \<open>rewrite_file\<close> (not a dry run)
  returns, a second run on the resulting files reports the file unchanged and leaves every
  file as it is.
\<close>

theorem rewrite_file_idempotent:
  assumes "rewrite_file fs p False = (Inr c, fs')"
  shows "rewrite_file fs' p False = (Inr False, fs')"
proof (cases c)
  case False
  from rewrite_file_ok_read [OF assms] obtain old where rd: "read_text fs p = Inr old" ..
  have "fs' = fs"
    using assms False unfolding rewrite_file_read [OF rd]
    by (auto split: if_splits sum.splits)
  then show ?thesis using assms False by simp
next
  case True
  have a: "rewrite_file fs p False = (Inr True, fs')" using assms True by simp
  from rewrite_file_written [OF a]
  obtain old new where rd': "read_text fs' p = Inr new"
    and sl: "splitlines new = map rewrite_line (splitlines old)
             \<or> splitlines new = butlast (map rewrite_line (splitlines old))"
    by blast
  have "set (butlast (map rewrite_line (splitlines old)))
          \<subseteq> set (map rewrite_line (splitlines old))"
    by (blast dest: in_set_butlastD)
  then have "set (splitlines new) \<subseteq> set (map rewrite_line (splitlines old))"
    using sl by (elim disjE) simp_all
  then have "\<forall>l \<in> set (splitlines new). \<exists>l0. l = rewrite_line l0" by auto
  then have "\<not> (\<exists>l \<in> set (splitlines new). line_changes l)"
    by (metis rewrite_line_stable)
  then show ?thesis unfolding rewrite_file_read [OF rd'] by simp
qed

theorem rewrite_file_idempotent_witness:
  "rewrite_file [([''a.txt''], File (''3 0.1 0.2 0.3 0.4 1.5'' @ [LF] @ ''0 0.5 0.5 0.2 0.2'' @ [LF]))]
       [''a.txt''] False
     = (Inr True, [([''a.txt''], File (''0 0.1 0.2 0.3 0.4'' @ [LF] @ ''0 0.5 0.5 0.2 0.2'' @ [LF]))])
   \<and> rewrite_file [([''a.txt''], File (''0 0.1 0.2 0.3 0.4'' @ [LF] @ ''0 0.5 0.5 0.2 0.2'' @ [LF]))]
       [''a.txt''] False
     = (Inr False, [([''a.txt''], File (''0 0.1 0.2 0.3 0.4'' @ [LF] @ ''0 0.5 0.5 0.2 0.2'' @ [LF]))])"
proof -
  have h: "rewrite_file [([''a.txt''], File (''3 0.1 0.2 0.3 0.4 1.5'' @ [LF] @ ''0 0.5 0.5 0.2 0.2'' @ [LF]))]
       [''a.txt''] False
     = (Inr True, [([''a.txt''], File (''0 0.1 0.2 0.3 0.4'' @ [LF] @ ''0 0.5 0.5 0.2 0.2'' @ [LF]))])"
    by code_simp
  show ?thesis using h rewrite_file_idempotent [OF h] by simp
qed

lemma rewrite_line_Nil: "rewrite_line [] = []"
  by (simp add: rewrite_line_def strip_def)

lemma new_text_lines_exact:
  fixes e :: bool
  assumes nl: "\<forall>l \<in> set ls. no_linebreak l" and ne: "ls \<noteq> []"
  shows "splitlines (join [LF] (map rewrite_line ls) @ (if e then [LF] else []))
           = (if last ls = [] \<and> \<not> e then butlast (map rewrite_line ls)
              else map rewrite_line ls)"
proof -
  let ?upd = "map rewrite_line ls"
  have unl: "\<forall>l \<in> set ?upd. no_linebreak l"
    using nl by (auto intro: rewrite_line_no_linebreak)
  have last_eq: "last ?upd = [] \<longleftrightarrow> last ls = []"
  proof
    assume "last ?upd = []"
    then have "rewrite_line (last ls) = []" using ne by (simp add: last_map)
    then show "last ls = []" by (rule rewrite_line_eq_Nil)
  next
    assume "last ls = []"
    then show "last ?upd = []" using ne by (simp add: last_map rewrite_line_Nil)
  qed
  show ?thesis
  proof (cases e)
    case True
    have "splitlines (join [LF] ?upd @ [LF]) = ?upd"
      using unl ne by (intro splitlines_join_LF) simp_all
    then show ?thesis using True by simp
  next
    case False
    have "splitlines (join [LF] ?upd)
            = (if ?upd \<noteq> [] \<and> last ?upd = [] then butlast ?upd else ?upd)"
      using unl by (rule splitlines_join)
    then show ?thesis using False ne last_eq by simp
  qed
qed

lemma rewrite_file_written_exact:
  assumes "rewrite_file fs p False = (Inr True, fs')"
  shows "\<exists>old new. read_text fs p = Inr old \<and> read_text fs' p = Inr new
           \<and> splitlines old \<noteq> []
           \<and> splitlines new
               = (if last (splitlines old) = [] \<and> \<not> ends_with_newline old
                  then butlast (map rewrite_line (splitlines old))
                  else map rewrite_line (splitlines old))"
proof -
  from rewrite_file_ok_read [OF assms] obtain old where rd: "read_text fs p = Inr old" ..
  let ?ls = "splitlines old"
  let ?new = "join [LF] (map rewrite_line ?ls) @ (if ends_with_newline old then [LF] else [])"
  have eq: "rewrite_file fs p False =
     (if (\<exists>l \<in> set ?ls. line_changes l) \<and> \<not> False then
        (case write_text fs p ?new of Inl e \<Rightarrow> (Inl e, fs) | Inr fs' \<Rightarrow> (Inr True, fs'))
      else (Inr (\<exists>l \<in> set ?ls. line_changes l), fs))"
    by (rule rewrite_file_read [OF rd])
  have ch: "\<exists>l \<in> set ?ls. line_changes l"
    using assms eq by (auto split: if_splits)
  then have ne: "?ls \<noteq> []" by auto
  have wr: "write_text fs p ?new = Inr fs'"
    using assms eq ch by (auto split: sum.splits)
  have nl: "\<forall>l \<in> set ?ls. no_linebreak l" by (blast intro: splitlines_no_linebreak)
  have "CR \<notin> set ?new" using nl ne by (rule new_text_lines(1))
  then have "universal_newlines ?new = ?new" by (rule universal_newlines_no_CR)
  then have rd': "read_text fs' p = Inr ?new" using read_after_write [OF wr] by simp
  have "splitlines ?new
          = (if last ?ls = [] \<and> \<not> ends_with_newline old
             then butlast (map rewrite_line ?ls) else map rewrite_line ?ls)"
    using nl ne by (rule new_text_lines_exact)
  then show ?thesis using rd rd' ne by blast
qed

text \<open>
  Claim C5, as the code has it.  When \<open>rewrite_file\<close> (not a dry run) rewrites a file, the
  new text has the lines of the old text one for one and in order, with a single
  exception: an empty last line is gone when the old text does not end with a newline
  (its last line break is another character).  A blank line is kept as it is.  A line
  that is not blank becomes \<open>0\<close> followed by the input line's fields two to five, as many
  of them as the input line has, joined by single blanks: five fields when the input line
  has five or more, and as many fields as the input line when it has fewer.
\<close>

theorem rewrite_file_result_lines:
  assumes "rewrite_file fs p False = (Inr True, fs')"
  shows "\<exists>old new. read_text fs p = Inr old \<and> read_text fs' p = Inr new
     \<and> length (splitlines new)
         = (if last (splitlines old) = [] \<and> \<not> ends_with_newline old
            then length (splitlines old) - 1 else length (splitlines old))
     \<and> (\<forall>i < length (splitlines new).
          if strip (splitlines old ! i) = []
          then splitlines new ! i = splitlines old ! i
          else splitlines new ! i
                 = join '' '' (''0'' # take 4 (tl (split_ws (splitlines old ! i))))
               \<and> split_ws (splitlines new ! i)
                   = ''0'' # take 4 (tl (split_ws (splitlines old ! i))))"
proof -
  from rewrite_file_written_exact [OF assms]
  obtain old new where rd: "read_text fs p = Inr old" and rd': "read_text fs' p = Inr new"
    and ne: "splitlines old \<noteq> []"
    and sl: "splitlines new
               = (if last (splitlines old) = [] \<and> \<not> ends_with_newline old
                  then butlast (map rewrite_line (splitlines old))
                  else map rewrite_line (splitlines old))"
    by blast
  let ?ls = "splitlines old" and ?ns = "splitlines new"
  have len: "length ?ns = (if last ?ls = [] \<and> \<not> ends_with_newline old
                           then length ?ls - 1 else length ?ls)"
    unfolding sl by simp
  have le: "length ?ns \<le> length ?ls" unfolding len by simp
  have nth: "\<And>i. i < length ?ns \<Longrightarrow> ?ns ! i = rewrite_line (?ls ! i)"
  proof -
    fix i assume i: "i < length ?ns"
    then have il: "i < length ?ls" using le by simp
    show "?ns ! i = rewrite_line (?ls ! i)"
    proof (cases "last ?ls = [] \<and> \<not> ends_with_newline old")
      case True
      have "?ns = butlast (map rewrite_line ?ls)" using sl True by (simp split: if_splits)
      then show ?thesis using i il by (simp add: nth_butlast)
    next
      case False
      have "?ns = map rewrite_line ?ls" using sl False by (simp split: if_splits)
      then show ?thesis using il by simp
    qed
  qed
  have "\<forall>i < length ?ns.
          if strip (?ls ! i) = []
          then ?ns ! i = ?ls ! i
          else ?ns ! i = join '' '' (''0'' # take 4 (tl (split_ws (?ls ! i))))
               \<and> split_ws (?ns ! i) = ''0'' # take 4 (tl (split_ws (?ls ! i)))"
  proof (intro allI impI)
    fix i assume i: "i < length ?ns"
    show "if strip (?ls ! i) = []
          then ?ns ! i = ?ls ! i
          else ?ns ! i = join '' '' (''0'' # take 4 (tl (split_ws (?ls ! i))))
               \<and> split_ws (?ns ! i) = ''0'' # take 4 (tl (split_ws (?ls ! i)))"
    proof (cases "strip (?ls ! i) = []")
      case True
      then show ?thesis using nth [OF i] by (simp add: rewrite_line_blank)
    next
      case False
      then show ?thesis
        using nth [OF i] rewrite_line_fields [OF False] split_ws_rewrite_line [OF False]
        by simp
    qed
  qed
  then show ?thesis using rd rd' len by blast
qed

theorem rewrite_file_result_lines_witness:
  "rewrite_file [([''a.txt''], File (''3 0.1 0.2 0.3 0.4 1.5'' @ [LF] @ '' '' @ [LF] @ ''1 0.5 0.6''))]
       [''a.txt''] False
     = (Inr True, [([''a.txt''], File (''0 0.1 0.2 0.3 0.4'' @ [LF] @ '' '' @ [LF] @ ''0 0.5 0.6''))])
   \<and> (\<exists>old new.
        read_text [([''a.txt''], File (''3 0.1 0.2 0.3 0.4 1.5'' @ [LF] @ '' '' @ [LF] @ ''1 0.5 0.6''))]
          [''a.txt''] = Inr old
        \<and> read_text [([''a.txt''], File (''0 0.1 0.2 0.3 0.4'' @ [LF] @ '' '' @ [LF] @ ''0 0.5 0.6''))]
            [''a.txt''] = Inr new
        \<and> length (splitlines new)
            = (if last (splitlines old) = [] \<and> \<not> ends_with_newline old
               then length (splitlines old) - 1 else length (splitlines old))
        \<and> (\<forall>i < length (splitlines new).
             if strip (splitlines old ! i) = []
             then splitlines new ! i = splitlines old ! i
             else splitlines new ! i
                    = join '' '' (''0'' # take 4 (tl (split_ws (splitlines old ! i))))
                  \<and> split_ws (splitlines new ! i)
                      = ''0'' # take 4 (tl (split_ws (splitlines old ! i)))))"
proof -
  have h: "rewrite_file [([''a.txt''], File (''3 0.1 0.2 0.3 0.4 1.5'' @ [LF] @ '' '' @ [LF] @ ''1 0.5 0.6''))]
       [''a.txt''] False
     = (Inr True, [([''a.txt''], File (''0 0.1 0.2 0.3 0.4'' @ [LF] @ '' '' @ [LF] @ ''0 0.5 0.6''))])"
    by code_simp
  show ?thesis using h rewrite_file_result_lines [OF h] by blast
qed

lemma rewrite_file_drops_empty_last_line:
  "rewrite_file [([''a.txt''], File (''1 2 3 4 5 6'' @ [LF, CHR 0x0C]))] [''a.txt''] False
     = (Inr True, [([''a.txt''], File (''0 2 3 4 5'' @ [LF]))])
   \<and> splitlines (''1 2 3 4 5 6'' @ [LF, CHR 0x0C]) = [''1 2 3 4 5 6'', []]
   \<and> splitlines (''0 2 3 4 5'' @ [LF]) = [''0 2 3 4 5'']"
  by code_simp

text \<open>A label line with fewer than five fields keeps its number of fields: the file
  is rewritten, and its line has three fields, not five.\<close>

theorem rewrite_file_short_line_counterexample:
  "rewrite_file [([''a.txt''], File (''1 0.5 0.5'' @ [LF]))] [''a.txt''] False
     = (Inr True, [([''a.txt''], File (''0 0.5 0.5'' @ [LF]))])
   \<and> splitlines (''0 0.5 0.5'' @ [LF]) = [''0 0.5 0.5'']
   \<and> length (split_ws ''0 0.5 0.5'') = 3"
  by code_simp

section \<open>Oriented-box converter: pass-through and abort\<close>

text \<open>
  Claim C6.  A line of exactly nine white-space separated tokens goes through
  \<open>convert_line\<close> unchanged, whatever the angle format, the default angle and the output
  order: the result is the nine tokens joined by single blanks, and splitting it gives the
  same nine tokens.
\<close>

theorem convert_line_nine_fields:
  assumes "length (split_ws line) = 9"
  shows "convert_line ops (split_ws line) angle_format default_angle order
           = Inr (join '' '' (split_ws line))
         \<and> split_ws (join '' '' (split_ws line)) = split_ws line"
proof -
  have "convert_line ops (split_ws line) angle_format default_angle order
          = Inr (join '' '' (split_ws line))"
    using assms by (simp add: convert_line_def)
  moreover have "split_ws (join '' '' (split_ws line)) = split_ws line"
    by (rule split_ws_join) (blast intro: split_ws_tokens)
  ultimately show ?thesis by simp
qed

lemma split_ws_nine_example:
  "split_ws ''0 0.1 0.2 0.3 0.2 0.3 0.4 0.1 0.4''
     = [''0'', ''0.1'', ''0.2'', ''0.3'', ''0.2'', ''0.3'', ''0.4'', ''0.1'', ''0.4'']"
  by code_simp

theorem convert_line_nine_fields_witness:
  "length (split_ws ''0 0.1 0.2 0.3 0.2 0.3 0.4 0.1 0.4'') = 9
   \<and> convert_line real_ops (split_ws ''0 0.1 0.2 0.3 0.2 0.3 0.4 0.1 0.4'') ''degrees'' 90
        ''interleaved''
       = Inr ''0 0.1 0.2 0.3 0.2 0.3 0.4 0.1 0.4''"
proof -
  have h: "length (split_ws ''0 0.1 0.2 0.3 0.2 0.3 0.4 0.1 0.4'') = 9"
    by (simp add: split_ws_nine_example)
  show ?thesis
    using h convert_line_nine_fields [OF h, of real_ops "''degrees''" 90 "''interleaved''"]
    by (simp add: split_ws_nine_example)
qed

lemma convert_line_unparseable:
  assumes "length parts \<noteq> 9"
    and "i \<in> {1, 2, 3, 4, 5}" and "i < length parts"
    and "parse_float ops (parts ! i) = None"
  shows "\<exists>e. convert_line ops parts angle_format default_angle order = Inl e"
proof (cases "length parts < 5")
  case True
  then show ?thesis by (simp add: convert_line_def)
next
  case False
  have "(parse_float ops (parts ! 1) = None \<or> parse_float ops (parts ! 2) = None
         \<or> parse_float ops (parts ! 3) = None \<or> parse_float ops (parts ! 4) = None)
        \<or> (6 \<le> length parts \<and> parse_float ops (parts ! 5) = None)"
    using assms(2-4) by auto
  then have "convert_line ops parts angle_format default_angle order = Inl (BadFloats parts)"
    using False assms(1)
    by (auto simp: convert_line_def Let_def split: option.splits)
  then show ?thesis by blast
qed

lemma process_loop_error:
  assumes "l \<in> set lines" and "strip l \<noteq> []"
    and "convert_line ops (split_ws (strip l)) angle_format default_angle order = Inl e"
  shows "\<exists>e'. process_loop ops path angle_format default_angle order lines new_lines changed
               = Inl (ErrorInFile path e')"
  using assms(1)
proof (induction lines arbitrary: new_lines changed)
  case Nil
  then show ?case by simp
next
  case (Cons x xs)
  show ?case
  proof (cases "strip x = []")
    case True
    then have "x \<noteq> l" using assms(2) by auto
    then have "l \<in> set xs" using Cons.prems by simp
    from Cons.IH [OF this] show ?thesis using True by simp
  next
    case False
    show ?thesis
    proof (cases "convert_line ops (split_ws (strip x)) angle_format default_angle order")
      case (Inl err)
      then show ?thesis using False by simp
    next
      case (Inr converted)
      then have "x \<noteq> l" using assms(3) by auto
      then have "l \<in> set xs" using Cons.prems by simp
      from Cons.IH [OF this] show ?thesis using False Inr by simp
    qed
  qed
qed

text \<open>
  Claim C7, as the code has it.  When a label file has a line that is not blank, does not
  have exactly nine fields, and one of whose fields two to six is not a number,
  \<open>process_file\<close> stops with an error that carries the path of the file, and the files are
  left as they were.  (A line of exactly nine fields is passed through without being
  parsed, and the class field and the fields after the sixth are never parsed.)
\<close>

theorem process_file_aborts:
  assumes "read_text fs path = Inr content"
    and "line \<in> set (splitlines content)" and "strip line \<noteq> []"
    and "length (split_ws line) \<noteq> 9"
    and "i \<in> {1, 2, 3, 4, 5}" and "i < length (split_ws line)"
    and "parse_float ops (split_ws line ! i) = None"
  shows "\<exists>e. process_file ops fs path angle_format default_angle order dry_run
              = (Inl (ErrorInFile path e), fs)"
proof -
  have sp: "split_ws (strip line) = split_ws line" by (rule split_ws_strip)
  from convert_line_unparseable [OF assms(4-7)]
  obtain e where "convert_line ops (split_ws line) angle_format default_angle order = Inl e"
    by blast
  then have "convert_line ops (split_ws (strip line)) angle_format default_angle order = Inl e"
    by (simp only: sp)
  from process_loop_error [OF assms(2,3) this]
  obtain e' where "process_loop ops path angle_format default_angle order
                     (splitlines content) [] False = Inl (ErrorInFile path e')"
    by blast
  then show ?thesis using assms(1) by (simp add: process_file_def)
qed

lemma parse_float_real_ops: "parse_float real_ops = parse_decimal"
  by (simp add: real_ops_def)

theorem process_file_aborts_witness:
  "\<exists>e. process_file real_ops
         [([''a.txt''], File (''0 0.5 0.5 0.1 0.1'' @ [LF] @ ''1 0.5 abc 0.1 0.1 0.3'' @ [LF]))]
         [''a.txt''] ''radians'' 0 ''grouped'' False
       = (Inl (ErrorInFile [''a.txt''] e),
          [([''a.txt''], File (''0 0.5 0.5 0.1 0.1'' @ [LF] @ ''1 0.5 abc 0.1 0.1 0.3'' @ [LF]))])"
proof (rule process_file_aborts [where line = "''1 0.5 abc 0.1 0.1 0.3''" and i = 2])
  show "read_text [([''a.txt''], File (''0 0.5 0.5 0.1 0.1'' @ [LF] @ ''1 0.5 abc 0.1 0.1 0.3'' @ [LF]))]
          [''a.txt'']
        = Inr (''0 0.5 0.5 0.1 0.1'' @ [LF] @ ''1 0.5 abc 0.1 0.1 0.3'' @ [LF])"
    by code_simp
  show "''1 0.5 abc 0.1 0.1 0.3''
          \<in> set (splitlines (''0 0.5 0.5 0.1 0.1'' @ [LF] @ ''1 0.5 abc 0.1 0.1 0.3'' @ [LF]))"
    by code_simp
  show "strip ''1 0.5 abc 0.1 0.1 0.3'' \<noteq> []" by code_simp
  show "length (split_ws ''1 0.5 abc 0.1 0.1 0.3'') \<noteq> 9" by code_simp
  show "(2::nat) \<in> {1, 2, 3, 4, 5}" by simp
  show "2 < length (split_ws ''1 0.5 abc 0.1 0.1 0.3'')" by code_simp
  show "parse_float real_ops (split_ws ''1 0.5 abc 0.1 0.1 0.3'' ! 2) = None"
    unfolding parse_float_real_ops by code_simp
qed

lemma nine_field_example:
  "universal_newlines (''0 a b c d e f g h'' @ [LF]) = ''0 a b c d e f g h'' @ [LF]"
  "splitlines (''0 a b c d e f g h'' @ [LF]) = [''0 a b c d e f g h'']"
  "strip ''0 a b c d e f g h'' = ''0 a b c d e f g h''"
  "split_ws ''0 a b c d e f g h'' = [''0'', ''a'', ''b'', ''c'', ''d'', ''e'', ''f'', ''g'', ''h'']"
  "parse_decimal ''a'' = None"
  by code_simp+

text \<open>A line of nine fields whose fields are not numbers: no error, the file is reported
  unchanged.\<close>

theorem process_file_nine_fields_counterexample:
  "process_file real_ops [([''a.txt''], File (''0 a b c d e f g h'' @ [LF]))] [''a.txt'']
       ''radians'' 0 ''grouped'' False
     = (Inr False, [([''a.txt''], File (''0 a b c d e f g h'' @ [LF]))])
   \<and> parse_float real_ops (split_ws ''0 a b c d e f g h'' ! 1) = None"
proof -
  have rd: "read_text [([''a.txt''], File (''0 a b c d e f g h'' @ [LF]))] [''a.txt'']
              = Inr (''0 a b c d e f g h'' @ [LF])"
    by code_simp
  have cl: "convert_line real_ops (split_ws ''0 a b c d e f g h'') ''radians'' 0 ''grouped''
              = Inr ''0 a b c d e f g h''"
    by (simp add: nine_field_example(4) convert_line_def)
  have "process_loop real_ops [''a.txt''] ''radians'' 0 ''grouped'' [''0 a b c d e f g h''] [] False
          = Inr ([''0 a b c d e f g h''], False)"
    by (simp add: nine_field_example(3) cl)
  then have "process_loop real_ops [''a.txt''] ''radians'' 0 ''grouped''
               (splitlines (''0 a b c d e f g h'' @ [LF])) [] False
          = Inr ([''0 a b c d e f g h''], False)"
    by (simp only: nine_field_example(2))
  then have "process_file real_ops [([''a.txt''], File (''0 a b c d e f g h'' @ [LF]))] [''a.txt'']
       ''radians'' 0 ''grouped'' False
     = (Inr False, [([''a.txt''], File (''0 a b c d e f g h'' @ [LF]))])"
    unfolding process_file_def rd by (simp del: process_loop.simps)
  moreover have "parse_float real_ops (split_ws ''0 a b c d e f g h'' ! 1) = None"
    unfolding parse_float_real_ops by code_simp
  ultimately show ?thesis by simp
qed

section \<open>Inference service: client errors\<close>

text \<open>
  Claim C8.  When the uploaded content is empty, and when it cannot be opened as an image,
  \<open>predict\<close> answers with an HTTP error of status 400: the result is the error and no
  response, and the record of images handed to the model is what it was, so no inference
  was run.
\<close>

theorem predict_client_errors:
  assumes "contents = [] \<or> open_image det contents = None"
  shows "\<exists>detail. predict det model_path inference_time st contents
                    = (Inl (HTTPException 400 detail), st)"
  using assms by (auto simp: predict_def)

theorem predict_client_errors_witness:
  "(\<exists>detail. predict stub_detector ''best.pt'' ''0.010'' \<lparr>model_calls = []\<rparr> []
               = (Inl (HTTPException 400 detail), \<lparr>model_calls = []\<rparr>))
   \<and> open_image stub_detector ''not an image'' = None
   \<and> (\<exists>detail. predict stub_detector ''best.pt'' ''0.010'' \<lparr>model_calls = []\<rparr> ''not an image''
               = (Inl (HTTPException 400 detail), \<lparr>model_calls = []\<rparr>))"
proof -
  have h: "open_image stub_detector ''not an image'' = None"
    by (simp add: stub_detector_def)
  show ?thesis
    using h
      predict_client_errors [of "[]" stub_detector "''best.pt''" "''0.010''" "\<lparr>model_calls = []\<rparr>"]
      predict_client_errors [of "''not an image''" stub_detector "''best.pt''" "''0.010''"
        "\<lparr>model_calls = []\<rparr>"]
    by simp
qed

lemma str_nat_example: "str_nat 1 = ''1''" and "str_nat 120 = ''120''" and "str_nat 0 = ''0''"
  by code_simp+

lemma predict_example:
  "predict stub_detector ''best.pt'' ''0.010'' \<lparr>model_calls = []\<rparr> [CHR 0xFF, CHR 0xD8, CHR 0x00]
     = (Inr \<lparr>body = [CHR 0xFF, CHR 0xD8, CHR 0xFF, CHR 0xD9], media_type = ''image/jpeg'',
             headers = [(''X-Inference-Time'', ''0.010''), (''X-Detections'', ''1''),
                        (''X-Model-Path'', ''best.pt'')]\<rparr>,
        \<lparr>model_calls = [[CHR 0xFF, CHR 0xD8, CHR 0x00]]\<rparr>)"
  using str_nat_example(1) by (simp add: predict_def stub_detector_def)

section \<open>Dataset splitter: the three splits partition the pairs\<close>








section \<open>Rectangular-box converter: when the decimal arithmetic is exact\<close>

lemma pow10_powi: "pow10 k = 10 powi k"
  by (simp add: pow10_def power_int_def inverse_eq_divide power_one_over)

lemma pow10_pos: "0 < pow10 k"
  by (simp add: pow10_powi)

lemma pow10_add: "pow10 (a + b) = pow10 a * pow10 b"
  by (simp add: pow10_powi power_int_add)

lemma pow10_nat: "pow10 (int n) = 10 ^ n"
  by (simp add: pow10_def)

lemma pow10_less_imp_less:
  assumes "pow10 a < pow10 b"
  shows "a < b"
proof (rule ccontr)
  assume "\<not> a < b"
  then have "b \<le> a" by simp
  then have "pow10 b \<le> pow10 a"
    unfolding pow10_powi by (rule power_int_increasing) simp
  then show False using assms by simp
qed

lemma ndigits_bounds:
  "0 < n \<Longrightarrow> 10 ^ (ndigits n - 1) \<le> n \<and> n < 10 ^ ndigits n"
proof (induction n rule: ndigits.induct)
  case (1 n)
  show ?case
  proof (cases "n < 10")
    case True
    then have "ndigits n = 1" by (subst ndigits.simps) simp
    then show ?thesis using True "1.prems" by simp
  next
    case False
    then have nd: "ndigits n = Suc (ndigits (n div 10))" by (subst ndigits.simps) simp
    have pos: "0 < n div 10" using False by simp
    from "1.IH" [OF False pos]
    have lo: "10 ^ (ndigits (n div 10) - 1) \<le> n div 10"
      and hi: "n div 10 < 10 ^ ndigits (n div 10)" by simp_all
    have ge1: "1 \<le> ndigits (n div 10)" by (subst ndigits.simps) simp
    have "10 * 10 ^ (ndigits (n div 10) - 1) \<le> 10 * (n div 10)" using lo by simp
    also have "\<dots> \<le> n" by simp
    finally have a: "10 ^ (ndigits n - 1) \<le> n"
      using ge1 by (simp add: nd power_Suc [symmetric] del: power_Suc)
    have "n div 10 + 1 \<le> 10 ^ ndigits (n div 10)" using hi by simp
    then have "10 * (n div 10 + 1) \<le> (10::int) * 10 ^ ndigits (n div 10)"
      by (rule mult_left_mono) simp
    moreover have "n < 10 * (n div 10 + 1)" by simp
    ultimately have b: "n < 10 ^ ndigits n" by (simp add: nd)
    show ?thesis using a b by simp
  qed
qed

lemma adjusted_le:
  assumes "r \<noteq> 0"
  shows "pow10 (adjusted r) \<le> \<bar>r\<bar>"
proof -
  obtain p q where pq: "quotient_of r = (p, q)" by (cases "quotient_of r")
  have q: "0 < q" using pq by (rule quotient_of_denom_pos)
  have r: "r = of_int p / of_int q" using pq by (rule quotient_of_div)
  have p: "p \<noteq> 0" using assms r by auto
  let ?k = "int (ndigits \<bar>p\<bar>) - int (ndigits q)"
  show ?thesis
  proof (cases "pow10 ?k \<le> \<bar>r\<bar>")
    case True
    then show ?thesis by (simp add: adjusted_def pq Let_def)
  next
    case False
    then have adj: "adjusted r = ?k - 1" by (simp add: adjusted_def pq Let_def)
    have plo: "10 ^ (ndigits \<bar>p\<bar> - 1) \<le> \<bar>p\<bar>" using ndigits_bounds [of "\<bar>p\<bar>"] p by simp
    have qhi: "q < 10 ^ ndigits q" using ndigits_bounds [OF q] by simp
    have np: "1 \<le> ndigits \<bar>p\<bar>" by (subst ndigits.simps) simp
    have "?k - 1 = int (ndigits \<bar>p\<bar> - 1) + (- int (ndigits q))"
      using np by (simp add: of_nat_diff)
    then have "pow10 (?k - 1) = pow10 (int (ndigits \<bar>p\<bar> - 1)) * pow10 (- int (ndigits q))"
      by (simp only: pow10_add)
    also have "\<dots> = 10 ^ (ndigits \<bar>p\<bar> - 1) / 10 ^ ndigits q"
      by (simp add: pow10_nat) (simp add: pow10_def)
    also have "\<dots> \<le> of_int \<bar>p\<bar> / 10 ^ ndigits q"
    proof -
      have "(of_int (10 ^ (ndigits \<bar>p\<bar> - 1)) :: rat) \<le> of_int \<bar>p\<bar>"
        using plo by (simp only: of_int_le_iff)
      then have "(10 ^ (ndigits \<bar>p\<bar> - 1) :: rat) \<le> of_int \<bar>p\<bar>" by simp
      then show ?thesis by (intro divide_right_mono) simp_all
    qed
    also have "\<dots> \<le> of_int \<bar>p\<bar> / of_int q"
    proof -
      have "(of_int q :: rat) \<le> of_int (10 ^ ndigits q)"
        using qhi by (simp only: of_int_le_iff)
      then have "(of_int q :: rat) \<le> 10 ^ ndigits q" by simp
      then show ?thesis using q by (intro divide_left_mono) simp_all
    qed
    also have "\<dots> = \<bar>r\<bar>" using q by (simp add: r)
    finally show ?thesis by (simp add: adj)
  qed
qed

lemma round_half_even_int: "round_half_even (of_int m) = m"
  by (simp add: round_half_even_def)

lemma context_round_exact:
  assumes "r = of_int m / 10 ^ j" and "\<bar>m\<bar> < 10 ^ prec"
  shows "context_round r = r"
proof (cases "r = 0")
  case True
  then show ?thesis by (simp add: context_round_def)
next
  case False
  let ?e = "adjusted r"
  let ?s = "int prec - 1 - ?e"
  have absr: "\<bar>r\<bar> = of_int \<bar>m\<bar> / 10 ^ j" by (simp add: assms(1))
  have "(of_int \<bar>m\<bar> :: rat) < of_int (10 ^ prec)"
    using assms(2) by (simp only: of_int_less_iff)
  then have "\<bar>r\<bar> < 10 ^ prec / 10 ^ j"
    unfolding absr by (intro divide_strict_right_mono) simp_all
  also have "\<dots> = pow10 (int prec - int j)"
    by (simp add: pow10_powi power_int_diff)
  finally have "pow10 ?e < pow10 (int prec - int j)"
    using adjusted_le [OF False] by simp
  then have "?e < int prec - int j" by (rule pow10_less_imp_less)
  then have sj: "int j \<le> ?s" by simp
  define d where "d = nat (?s - int j)"
  have s: "?s = int j + int d" using sj by (simp add: d_def)
  have p: "pow10 ?s = 10 ^ j * 10 ^ d"
    unfolding s by (simp add: pow10_add pow10_nat)
  have scaled: "\<bar>r\<bar> * pow10 ?s = of_int (\<bar>m\<bar> * 10 ^ d)"
    by (simp add: absr p)
  have rn: "round_half_even (\<bar>r\<bar> * pow10 ?s) = \<bar>m\<bar> * 10 ^ d"
    unfolding scaled by (rule round_half_even_int)
  have "context_round r
          = (if r < 0 then - of_int (round_half_even (\<bar>r\<bar> * pow10 ?s))
             else of_int (round_half_even (\<bar>r\<bar> * pow10 ?s))) / pow10 ?s"
    using False unfolding context_round_def Let_def by (simp only: if_False)
  also have "\<dots> = (if r < 0 then - of_int (\<bar>m\<bar> * 10 ^ d) else of_int (\<bar>m\<bar> * 10 ^ d)) / pow10 ?s"
    by (simp only: rn)
  also have "\<dots> = (if r < 0 then - \<bar>r\<bar> else \<bar>r\<bar>)"
    by (simp add: absr p)
  also have "\<dots> = r" by simp
  finally show ?thesis .
qed


lemma short_decimalD:
  assumes "short_decimal v"
  obtains m :: int where "v = of_int m / 10 ^ 20" and "\<bar>m\<bar> < 10 ^ 26"
proof -
  let ?m = "\<lfloor>v * 10 ^ 20\<rfloor>"
  have eq: "of_int ?m = v * 10 ^ 20" and lt: "\<bar>v\<bar> < 10 ^ 6"
    using assms by (simp_all add: short_decimal_def)
  have v: "v = of_int ?m / 10 ^ 20" unfolding eq by simp
  have "\<bar>of_int ?m :: rat\<bar> = \<bar>v\<bar> * 10 ^ 20" unfolding eq by (simp add: abs_mult)
  also have "\<dots> < 10 ^ 6 * 10 ^ 20" using lt by (intro mult_strict_right_mono) simp_all
  finally have "(of_int \<bar>?m\<bar> :: rat) < of_int (10 ^ 26)" by simp
  then have "\<bar>?m\<bar> < 10 ^ 26" by (simp only: of_int_less_iff)
  with v show ?thesis by (rule that)
qed

lemma exact_21:
  fixes a b :: int
  assumes "\<bar>a\<bar> < 10 ^ 26" and "\<bar>b\<bar> < 10 ^ 26"
    and "\<bar>ka\<bar> \<le> 20" and "\<bar>kb\<bar> \<le> 20"
  shows "context_round (of_int (ka * a + kb * b) / 10 ^ 21) = of_int (ka * a + kb * b) / 10 ^ 21"
proof (rule context_round_exact [OF refl])
  have "\<bar>ka * a\<bar> \<le> 20 * \<bar>a\<bar>"
    unfolding abs_mult using assms(3) by (intro mult_right_mono) simp_all
  moreover have "\<bar>kb * b\<bar> \<le> 20 * \<bar>b\<bar>"
    unfolding abs_mult using assms(4) by (intro mult_right_mono) simp_all
  ultimately have "\<bar>ka * a + kb * b\<bar> \<le> 20 * \<bar>a\<bar> + 20 * \<bar>b\<bar>"
    by linarith
  also have "\<dots> < 10 ^ 28" using assms(1,2) by simp
  finally show "\<bar>ka * a + kb * b\<bar> < 10 ^ prec" by (simp add: prec_def)
qed

lemma to_polygon_axis:
  assumes "short_decimal c" and "short_decimal w"
  shows "dec_div w 2 = w / 2"
    and "dec_sub c (w / 2) = c - w / 2"
    and "dec_add c (w / 2) = c + w / 2"
    and "dec_sub (c + w / 2) (c - w / 2) = w"
    and "dec_div (dec_add (c - w / 2) (c + w / 2)) 2 = c"
proof -
  from assms(1) obtain a :: int where c: "c = of_int a / 10 ^ 20" and a: "\<bar>a\<bar> < 10 ^ 26"
    by (rule short_decimalD)
  from assms(2) obtain b :: int where w: "w = of_int b / 10 ^ 20" and b: "\<bar>b\<bar> < 10 ^ 26"
    by (rule short_decimalD)
  have h: "w / 2 = of_int (0 * a + 5 * b) / 10 ^ 21" by (simp add: w)
  have lo: "c - w / 2 = of_int (10 * a + (- 5) * b) / 10 ^ 21" by (simp add: c w field_simps)
  have hi: "c + w / 2 = of_int (10 * a + 5 * b) / 10 ^ 21" by (simp add: c w field_simps)
  have ww: "w = of_int (0 * a + 10 * b) / 10 ^ 21" by (simp add: w)
  have cc: "c = of_int (10 * a + 0 * b) / 10 ^ 21" by (simp add: c)
  have c2: "c + c = of_int (20 * a + 0 * b) / 10 ^ 21" by (simp add: c)
  show "dec_div w 2 = w / 2"
    unfolding dec_div_def h using a b by (intro exact_21) simp_all
  show "dec_sub c (w / 2) = c - w / 2"
    unfolding dec_sub_def lo using a b by (intro exact_21) simp_all
  show "dec_add c (w / 2) = c + w / 2"
    unfolding dec_add_def hi using a b by (intro exact_21) simp_all
  have "(c + w / 2) - (c - w / 2) = w" by simp
  moreover have "context_round w = w"
    by (subst (1 2) ww) (use a b in \<open>intro exact_21\<close>, simp_all)
  ultimately show "dec_sub (c + w / 2) (c - w / 2) = w" by (simp add: dec_sub_def)
  have s: "(c - w / 2) + (c + w / 2) = c + c" by simp
  have r2: "context_round (c + c) = c + c"
    unfolding c2 using a b by (intro exact_21) simp_all
  have r1: "context_round c = c"
    by (subst (1 2) cc) (use a b in \<open>intro exact_21\<close>, simp_all)
  have "dec_add (c - w / 2) (c + w / 2) = c + c"
    unfolding dec_add_def s by (rule r2)
  then have "dec_div (dec_add (c - w / 2) (c + w / 2)) 2 = context_round ((c + c) / 2)"
    by (simp only: dec_div_def)
  also have "(c + c) / 2 = c" by simp
  finally show "dec_div (dec_add (c - w / 2) (c + w / 2)) 2 = c"
    by (simp only: r1)
qed


lemma to_polygon_exact:
  assumes "short_decimal x_center" and "short_decimal y_center"
    and "short_decimal width" and "short_decimal height"
  shows "to_polygon label x_center y_center width height
           = (label, [x_center - width / 2, x_center + width / 2,
                      x_center + width / 2, x_center - width / 2,
                      y_center - height / 2, y_center - height / 2,
                      y_center + height / 2, y_center + height / 2])"
  unfolding to_polygon_def Let_def
    to_polygon_axis(1) [OF assms(1,3)] to_polygon_axis(1) [OF assms(2,4)]
    to_polygon_axis(2) [OF assms(1,3)] to_polygon_axis(2) [OF assms(2,4)]
    to_polygon_axis(3) [OF assms(1,3)] to_polygon_axis(3) [OF assms(2,4)]
  by (rule refl)

section \<open>Oriented-box converter: the corners in rounded arithmetic\<close>

lemma sq_edge: "(k * cos a)\<^sup>2 + (k * sin a)\<^sup>2 = (k::real)\<^sup>2"
proof -
  have "(k * cos a)\<^sup>2 + (k * sin a)\<^sup>2 = k\<^sup>2 * ((cos a)\<^sup>2 + (sin a)\<^sup>2)"
    by (simp only: power_mult_distrib distrib_left)
  also have "(cos a)\<^sup>2 + (sin a)\<^sup>2 = 1" by (simp add: add.commute)
  finally show ?thesis by simp
qed

lemma accurate_two: "accurate ops fin fval u eta big \<Longrightarrow> fin (ftwo ops) \<and> fval (ftwo ops) = 2"
  by (simp add: accurate_def)

lemma accurate_neg:
  "accurate ops fin fval u eta big \<Longrightarrow> fin a
     \<Longrightarrow> fin (fneg ops a) \<and> fval (fneg ops a) = - fval a"
  by (simp add: accurate_def)

lemma accurate_add:
  "accurate ops fin fval u eta big \<Longrightarrow> fin a \<Longrightarrow> fin b \<Longrightarrow> \<bar>fval a + fval b\<bar> \<le> big
     \<Longrightarrow> fin (fadd ops a b)
         \<and> \<bar>fval (fadd ops a b) - (fval a + fval b)\<bar> \<le> u * \<bar>fval a + fval b\<bar> + eta"
  by (simp add: accurate_def)

lemma accurate_sub:
  "accurate ops fin fval u eta big \<Longrightarrow> fin a \<Longrightarrow> fin b \<Longrightarrow> \<bar>fval a - fval b\<bar> \<le> big
     \<Longrightarrow> fin (fsub ops a b)
         \<and> \<bar>fval (fsub ops a b) - (fval a - fval b)\<bar> \<le> u * \<bar>fval a - fval b\<bar> + eta"
  by (simp add: accurate_def)

lemma accurate_mul:
  "accurate ops fin fval u eta big \<Longrightarrow> fin a \<Longrightarrow> fin b \<Longrightarrow> \<bar>fval a * fval b\<bar> \<le> big
     \<Longrightarrow> fin (fmul ops a b)
         \<and> \<bar>fval (fmul ops a b) - fval a * fval b\<bar> \<le> u * \<bar>fval a * fval b\<bar> + eta"
  by (simp add: accurate_def)

lemma accurate_div:
  "accurate ops fin fval u eta big \<Longrightarrow> fin a \<Longrightarrow> fin b \<Longrightarrow> fval b \<noteq> 0
     \<Longrightarrow> \<bar>fval a / fval b\<bar> \<le> big
     \<Longrightarrow> fin (fdiv ops a b)
         \<and> \<bar>fval (fdiv ops a b) - fval a / fval b\<bar> \<le> u * \<bar>fval a / fval b\<bar> + eta"
  by (simp add: accurate_def)

lemma accurate_cos:
  "accurate ops fin fval u eta big \<Longrightarrow> fin a
     \<Longrightarrow> fin (fcos ops a) \<and> \<bar>fval (fcos ops a) - cos (fval a)\<bar> \<le> u"
  by (simp add: accurate_def)

lemma accurate_sin:
  "accurate ops fin fval u eta big \<Longrightarrow> fin a
     \<Longrightarrow> fin (fsin ops a) \<and> \<bar>fval (fsin ops a) - sin (fval a)\<bar> \<le> u"
  by (simp add: accurate_def)

text \<open>The error of one rounded operation, for operands that are themselves off by a
  known amount.  Throughout, \<open>E\<close> stands for \<open>u * R\<close>, where \<open>R \<ge> 1\<close> bounds the inputs.\<close>

lemma half_step:
  assumes acc: "accurate ops fin fval u eta big"
    and eta: "0 \<le> eta" "eta \<le> u" and R: "1 \<le> R" and big: "4 * R \<le> big"
    and w: "fin w" "\<bar>fval w\<bar> \<le> R"
  shows "fin (fdiv ops w (ftwo ops))"
    and "\<bar>fval (fdiv ops w (ftwo ops)) - fval w / 2\<bar> \<le> 2 * (u * R)"
proof -
  have u0: "0 \<le> u" using eta by simp
  have two: "fin (ftwo ops)" "fval (ftwo ops) = 2" using accurate_two [OF acc] by simp_all
  have m: "\<bar>fval w / 2\<bar> \<le> R / 2" using w(2) by simp
  then have "\<bar>fval w / fval (ftwo ops)\<bar> \<le> big" using big R two(2) by simp
  from accurate_div [OF acc w(1) two(1) _ this]
  have f: "fin (fdiv ops w (ftwo ops))"
    and e: "\<bar>fval (fdiv ops w (ftwo ops)) - fval w / 2\<bar> \<le> u * \<bar>fval w / 2\<bar> + eta"
    using two(2) by simp_all
  show "fin (fdiv ops w (ftwo ops))" by (rule f)
  have "u * \<bar>fval w / 2\<bar> \<le> u * (R / 2)" using m u0 by (rule mult_left_mono)
  moreover have "u * 1 \<le> u * R" using R u0 by (rule mult_left_mono)
  ultimately show "\<bar>fval (fdiv ops w (ftwo ops)) - fval w / 2\<bar> \<le> 2 * (u * R)"
    using e eta by simp
qed

lemma mul_step:
  assumes acc: "accurate ops fin fval u eta big"
    and eta: "0 \<le> eta" "eta \<le> u" and u: "u \<le> 1 / 100" and R: "1 \<le> R"
    and big: "4 * R \<le> big"
    and p: "fin p" "\<bar>fval p - P\<bar> \<le> 2 * (u * R)" "\<bar>P\<bar> \<le> R / 2"
    and c: "fin c" "\<bar>fval c - C\<bar> \<le> u" "\<bar>C\<bar> \<le> 1"
  shows "fin (fmul ops p c)" and "\<bar>fval (fmul ops p c) - P * C\<bar> \<le> 8 * (u * R)"
    and "\<bar>P * C\<bar> \<le> R / 2"
proof -
  have u0: "0 \<le> u" using eta by simp
  have uE: "u \<le> u * R" using mult_left_mono [OF R u0] by simp
  have E: "u * R \<le> R / 100" using mult_right_mono [OF u, of R] R by simp
  have ap: "\<bar>fval p\<bar> \<le> R" using p(2,3) E by linarith
  have ac: "\<bar>fval c\<bar> \<le> 2" using c(2,3) u by linarith
  have prod: "\<bar>fval p * fval c\<bar> \<le> R * 2"
    unfolding abs_mult using ap ac by (intro mult_mono) simp_all
  then have "\<bar>fval p * fval c\<bar> \<le> big" using big R by linarith
  from accurate_mul [OF acc p(1) c(1) this]
  have f: "fin (fmul ops p c)"
    and e: "\<bar>fval (fmul ops p c) - fval p * fval c\<bar> \<le> u * \<bar>fval p * fval c\<bar> + eta"
    by simp_all
  show "fin (fmul ops p c)" by (rule f)
  have r: "u * \<bar>fval p * fval c\<bar> \<le> u * (R * 2)" using prod u0 by (rule mult_left_mono)
  have d: "fval p * fval c - P * C = (fval p - P) * fval c + P * (fval c - C)"
    by (simp add: algebra_simps)
  have t1: "\<bar>(fval p - P) * fval c\<bar> \<le> (2 * (u * R)) * 2"
    unfolding abs_mult using p(2) ac by (intro mult_mono) simp_all
  have t2: "\<bar>P * (fval c - C)\<bar> \<le> (R / 2) * u"
    unfolding abs_mult using p(3) c(2) R by (intro mult_mono) simp_all
  have "\<bar>fval p * fval c - P * C\<bar> \<le> (2 * (u * R)) * 2 + (R / 2) * u"
    unfolding d using t1 t2 by linarith
  moreover have "(R / 2) * u = (u * R) / 2" by simp
  moreover have "u * (R * 2) = 2 * (u * R)" by simp
  ultimately show "\<bar>fval (fmul ops p c) - P * C\<bar> \<le> 8 * (u * R)"
    using e r eta uE by linarith
  have "\<bar>P * C\<bar> \<le> (R / 2) * 1"
    unfolding abs_mult using p(3) c(3) R by (intro mult_mono) simp_all
  then show "\<bar>P * C\<bar> \<le> R / 2" by simp
qed

lemma sub_step:
  assumes acc: "accurate ops fin fval u eta big"
    and eta: "0 \<le> eta" "eta \<le> u" and u: "u \<le> 1 / 100" and R: "1 \<le> R"
    and big: "4 * R \<le> big"
    and s: "fin s" "\<bar>fval s - S\<bar> \<le> 8 * (u * R)" "\<bar>S\<bar> \<le> R / 2"
    and t: "fin t" "\<bar>fval t - T\<bar> \<le> 8 * (u * R)" "\<bar>T\<bar> \<le> R / 2"
  shows "fin (fsub ops s t)" and "\<bar>fval (fsub ops s t) - (S - T)\<bar> \<le> 19 * (u * R)"
    and "\<bar>S - T\<bar> \<le> R"
proof -
  have u0: "0 \<le> u" using eta by simp
  have uE: "u \<le> u * R" using mult_left_mono [OF R u0] by simp
  have E: "u * R \<le> R / 100" using mult_right_mono [OF u, of R] R by simp
  have m: "\<bar>fval s - fval t\<bar> \<le> R * 2" using s(2,3) t(2,3) E by linarith
  then have "\<bar>fval s - fval t\<bar> \<le> big" using big R by linarith
  from accurate_sub [OF acc s(1) t(1) this]
  have f: "fin (fsub ops s t)"
    and e: "\<bar>fval (fsub ops s t) - (fval s - fval t)\<bar> \<le> u * \<bar>fval s - fval t\<bar> + eta"
    by simp_all
  show "fin (fsub ops s t)" by (rule f)
  have r: "u * \<bar>fval s - fval t\<bar> \<le> u * (R * 2)" using m u0 by (rule mult_left_mono)
  have "u * (R * 2) = 2 * (u * R)" by simp
  then show "\<bar>fval (fsub ops s t) - (S - T)\<bar> \<le> 19 * (u * R)"
    using e r s(2) t(2) eta uE by linarith
  show "\<bar>S - T\<bar> \<le> R" using s(3) t(3) by linarith
qed

lemma add_step:
  assumes acc: "accurate ops fin fval u eta big"
    and eta: "0 \<le> eta" "eta \<le> u" and u: "u \<le> 1 / 100" and R: "1 \<le> R"
    and big: "4 * R \<le> big"
    and s: "fin s" "\<bar>fval s - S\<bar> \<le> 8 * (u * R)" "\<bar>S\<bar> \<le> R / 2"
    and t: "fin t" "\<bar>fval t - T\<bar> \<le> 8 * (u * R)" "\<bar>T\<bar> \<le> R / 2"
  shows "fin (fadd ops s t)" and "\<bar>fval (fadd ops s t) - (S + T)\<bar> \<le> 19 * (u * R)"
    and "\<bar>S + T\<bar> \<le> R"
proof -
  have u0: "0 \<le> u" using eta by simp
  have uE: "u \<le> u * R" using mult_left_mono [OF R u0] by simp
  have E: "u * R \<le> R / 100" using mult_right_mono [OF u, of R] R by simp
  have m: "\<bar>fval s + fval t\<bar> \<le> R * 2" using s(2,3) t(2,3) E by linarith
  then have "\<bar>fval s + fval t\<bar> \<le> big" using big R by linarith
  from accurate_add [OF acc s(1) t(1) this]
  have f: "fin (fadd ops s t)"
    and e: "\<bar>fval (fadd ops s t) - (fval s + fval t)\<bar> \<le> u * \<bar>fval s + fval t\<bar> + eta"
    by simp_all
  show "fin (fadd ops s t)" by (rule f)
  have r: "u * \<bar>fval s + fval t\<bar> \<le> u * (R * 2)" using m u0 by (rule mult_left_mono)
  have "u * (R * 2) = 2 * (u * R)" by simp
  then show "\<bar>fval (fadd ops s t) - (S + T)\<bar> \<le> 19 * (u * R)"
    using e r s(2) t(2) eta uE by linarith
  show "\<bar>S + T\<bar> \<le> R" using s(3) t(3) by linarith
qed

lemma centre_step:
  assumes acc: "accurate ops fin fval u eta big"
    and eta: "0 \<le> eta" "eta \<le> u" and u: "u \<le> 1 / 100" and R: "1 \<le> R"
    and big: "4 * R \<le> big"
    and c: "fin c" "\<bar>fval c\<bar> \<le> R"
    and r: "fin r" "\<bar>fval r - X\<bar> \<le> 19 * (u * R)" "\<bar>X\<bar> \<le> R"
  shows "fin (fadd ops c r)" and "\<bar>fval (fadd ops c r) - (fval c + X)\<bar> \<le> 23 * (u * R)"
proof -
  have u0: "0 \<le> u" using eta by simp
  have uE: "u \<le> u * R" using mult_left_mono [OF R u0] by simp
  have E: "u * R \<le> R / 100" using mult_right_mono [OF u, of R] R by simp
  have m: "\<bar>fval c + fval r\<bar> \<le> R * 3" using c(2) r(2,3) E by linarith
  then have "\<bar>fval c + fval r\<bar> \<le> big" using big R by linarith
  from accurate_add [OF acc c(1) r(1) this]
  have f: "fin (fadd ops c r)"
    and e: "\<bar>fval (fadd ops c r) - (fval c + fval r)\<bar> \<le> u * \<bar>fval c + fval r\<bar> + eta"
    by simp_all
  show "fin (fadd ops c r)" by (rule f)
  have rr: "u * \<bar>fval c + fval r\<bar> \<le> u * (R * 3)" using m u0 by (rule mult_left_mono)
  have "u * (R * 3) = 3 * (u * R)" by simp
  then show "\<bar>fval (fadd ops c r) - (fval c + X)\<bar> \<le> 23 * (u * R)"
    using e rr r(2) eta uE by linarith
qed


lemma corner_error:
  assumes acc: "accurate ops fin fval u eta big"
    and eta: "0 \<le> eta" "eta \<le> u" and u: "u \<le> 1 / 100" and R: "1 \<le> R"
    and big: "4 * R \<le> big"
    and cx: "fin cx" "\<bar>fval cx\<bar> \<le> R" and cy: "fin cy" "\<bar>fval cy\<bar> \<le> R"
    and a: "fin a"
    and px: "fin px" "\<bar>fval px - PX\<bar> \<le> 2 * (u * R)" "\<bar>PX\<bar> \<le> R / 2"
    and py: "fin py" "\<bar>fval py - PY\<bar> \<le> 2 * (u * R)" "\<bar>PY\<bar> \<le> R / 2"
  shows "\<bar>fval (fadd ops cx (fsub ops (fmul ops px (fcos ops a)) (fmul ops py (fsin ops a))))
           - (fval cx + (PX * cos (fval a) - PY * sin (fval a)))\<bar> \<le> 23 * (u * R)"
    and "\<bar>fval (fadd ops cy (fadd ops (fmul ops px (fsin ops a)) (fmul ops py (fcos ops a))))
           - (fval cy + (PX * sin (fval a) + PY * cos (fval a)))\<bar> \<le> 23 * (u * R)"
    and "fin (fadd ops cx (fsub ops (fmul ops px (fcos ops a)) (fmul ops py (fsin ops a))))"
    and "fin (fadd ops cy (fadd ops (fmul ops px (fsin ops a)) (fmul ops py (fcos ops a))))"
proof -
  note c = accurate_cos [OF acc a] and s = accurate_sin [OF acc a]
  have fc: "fin (fcos ops a)" and ec: "\<bar>fval (fcos ops a) - cos (fval a)\<bar> \<le> u"
    using c by simp_all
  have fs: "fin (fsin ops a)" and es: "\<bar>fval (fsin ops a) - sin (fval a)\<bar> \<le> u"
    using s by simp_all
  have bc: "\<bar>cos (fval a)\<bar> \<le> 1" and bs: "\<bar>sin (fval a)\<bar> \<le> 1" by simp_all
  note m1 = mul_step [OF acc eta u R big px fc ec bc]
  note m2 = mul_step [OF acc eta u R big py fs es bs]
  note m3 = mul_step [OF acc eta u R big px fs es bs]
  note m4 = mul_step [OF acc eta u R big py fc ec bc]
  note rx = sub_step [OF acc eta u R big m1 m2]
  note ry = add_step [OF acc eta u R big m3 m4]
  show "\<bar>fval (fadd ops cx (fsub ops (fmul ops px (fcos ops a)) (fmul ops py (fsin ops a))))
           - (fval cx + (PX * cos (fval a) - PY * sin (fval a)))\<bar> \<le> 23 * (u * R)"
    by (rule centre_step(2) [OF acc eta u R big cx rx])
  show "\<bar>fval (fadd ops cy (fadd ops (fmul ops px (fsin ops a)) (fmul ops py (fcos ops a))))
           - (fval cy + (PX * sin (fval a) + PY * cos (fval a)))\<bar> \<le> 23 * (u * R)"
    by (rule centre_step(2) [OF acc eta u R big cy ry])
  show "fin (fadd ops cx (fsub ops (fmul ops px (fcos ops a)) (fmul ops py (fsin ops a))))"
    by (rule centre_step(1) [OF acc eta u R big cx rx])
  show "fin (fadd ops cy (fadd ops (fmul ops px (fsin ops a)) (fmul ops py (fcos ops a))))"
    by (rule centre_step(1) [OF acc eta u R big cy ry])
qed

lemma rotate_points_unfold:
  "rotate_points ops cx cy w h a =
     (let hw = fdiv ops w (ftwo ops); hh = fdiv ops h (ftwo ops);
          c = fcos ops a; s = fsin ops a;
          corner = (\<lambda>px py. (fadd ops cx (fsub ops (fmul ops px c) (fmul ops py s)),
                              fadd ops cy (fadd ops (fmul ops px s) (fmul ops py c))))
      in [corner (fneg ops hw) (fneg ops hh), corner hw (fneg ops hh),
          corner hw hh, corner (fneg ops hw) hh])"
  by (simp add: rotate_points_def Let_def)

lemma sqrt_sum_squares_diff:
  "\<bar>sqrt (p\<^sup>2 + q\<^sup>2) - sqrt (P\<^sup>2 + Q\<^sup>2)\<bar> \<le> \<bar>p - P\<bar> + \<bar>q - Q\<bar>"
proof -
  have tri: "\<And>a b c d :: real. sqrt ((a + c)\<^sup>2 + (b + d)\<^sup>2) \<le> sqrt (a\<^sup>2 + b\<^sup>2) + \<bar>c\<bar> + \<bar>d\<bar>"
  proof -
    fix a b c d :: real
    have "sqrt ((a + c)\<^sup>2 + (b + d)\<^sup>2) \<le> sqrt (a\<^sup>2 + b\<^sup>2) + sqrt (c\<^sup>2 + d\<^sup>2)"
      by (rule real_sqrt_sum_squares_triangle_ineq)
    moreover have "sqrt (c\<^sup>2 + d\<^sup>2) \<le> \<bar>c\<bar> + \<bar>d\<bar>" by (rule sqrt_sum_squares_le_sum_abs)
    ultimately show "sqrt ((a + c)\<^sup>2 + (b + d)\<^sup>2) \<le> sqrt (a\<^sup>2 + b\<^sup>2) + \<bar>c\<bar> + \<bar>d\<bar>"
      by linarith
  qed
  have "sqrt (p\<^sup>2 + q\<^sup>2) \<le> sqrt (P\<^sup>2 + Q\<^sup>2) + \<bar>p - P\<bar> + \<bar>q - Q\<bar>"
    using tri [of P "p - P" Q "q - Q"] by simp
  moreover have "sqrt (P\<^sup>2 + Q\<^sup>2) \<le> sqrt (p\<^sup>2 + q\<^sup>2) + \<bar>P - p\<bar> + \<bar>Q - q\<bar>"
    using tri [of p "P - p" q "Q - q"] by simp
  ultimately show ?thesis by linarith
qed

lemma edge_length:
  assumes "\<bar>p - k * cos t\<bar> \<le> e" and "\<bar>q - k * sin t\<bar> \<le> e"
  shows "\<bar>sqrt (p\<^sup>2 + q\<^sup>2) - \<bar>k\<bar>\<bar> \<le> 2 * e"
proof -
  have "sqrt ((k * cos t)\<^sup>2 + (k * sin t)\<^sup>2) = \<bar>k\<bar>"
    by (simp only: sq_edge real_sqrt_abs)
  then show ?thesis
    using sqrt_sum_squares_diff [of p q "k * cos t" "k * sin t"] assms by linarith
qed


lemma rotate_points_accurate:
  assumes acc: "accurate ops fin fval u eta big"
    and eta: "0 \<le> eta" "eta \<le> u" and u: "u \<le> 1 / 100" and R: "1 \<le> R"
    and big: "4 * R \<le> big"
    and cx: "fin cx" "\<bar>fval cx\<bar> \<le> R" and cy: "fin cy" "\<bar>fval cy\<bar> \<le> R"
    and w: "fin w" "\<bar>fval w\<bar> \<le> R" and h: "fin h" "\<bar>fval h\<bar> \<le> R"
    and a: "fin a"
  shows "\<exists>x1 y1 x2 y2 x3 y3 x4 y4.
           rotate_points ops cx cy w h a = [(x1, y1), (x2, y2), (x3, y3), (x4, y4)]
           \<and> fin x1 \<and> fin y1 \<and> fin x2 \<and> fin y2 \<and> fin x3 \<and> fin y3 \<and> fin x4 \<and> fin y4
           \<and> \<bar>fval x1 - (fval cx - fval w * cos (fval a) / 2 + fval h * sin (fval a) / 2)\<bar>
                 \<le> 23 * (u * R)
           \<and> \<bar>fval y1 - (fval cy - fval w * sin (fval a) / 2 - fval h * cos (fval a) / 2)\<bar>
                 \<le> 23 * (u * R)
           \<and> \<bar>fval x2 - (fval cx + fval w * cos (fval a) / 2 + fval h * sin (fval a) / 2)\<bar>
                 \<le> 23 * (u * R)
           \<and> \<bar>fval y2 - (fval cy + fval w * sin (fval a) / 2 - fval h * cos (fval a) / 2)\<bar>
                 \<le> 23 * (u * R)
           \<and> \<bar>fval x3 - (fval cx + fval w * cos (fval a) / 2 - fval h * sin (fval a) / 2)\<bar>
                 \<le> 23 * (u * R)
           \<and> \<bar>fval y3 - (fval cy + fval w * sin (fval a) / 2 + fval h * cos (fval a) / 2)\<bar>
                 \<le> 23 * (u * R)
           \<and> \<bar>fval x4 - (fval cx - fval w * cos (fval a) / 2 - fval h * sin (fval a) / 2)\<bar>
                 \<le> 23 * (u * R)
           \<and> \<bar>fval y4 - (fval cy - fval w * sin (fval a) / 2 + fval h * cos (fval a) / 2)\<bar>
                 \<le> 23 * (u * R)"
proof -
  let ?hw = "fdiv ops w (ftwo ops)" and ?hh = "fdiv ops h (ftwo ops)"
  let ?W = "fval w" and ?H = "fval h" and ?C = "cos (fval a)" and ?S = "sin (fval a)"
  note hw = half_step [OF acc eta R big w] and hh = half_step [OF acc eta R big h]
  have bw: "\<bar>?W / 2\<bar> \<le> R / 2" using w(2) by simp
  have bh: "\<bar>?H / 2\<bar> \<le> R / 2" using h(2) by simp
  have nw: "fin (fneg ops ?hw)" "\<bar>fval (fneg ops ?hw) - (- (?W / 2))\<bar> \<le> 2 * (u * R)"
    "\<bar>- (?W / 2)\<bar> \<le> R / 2"
    using accurate_neg [OF acc hw(1)] hw(2) bw by simp_all
  have nh: "fin (fneg ops ?hh)" "\<bar>fval (fneg ops ?hh) - (- (?H / 2))\<bar> \<le> 2 * (u * R)"
    "\<bar>- (?H / 2)\<bar> \<le> R / 2"
    using accurate_neg [OF acc hh(1)] hh(2) bh by simp_all
  note pw = hw(1) hw(2) bw and ph = hh(1) hh(2) bh
  note c1 = corner_error [OF acc eta u R big cx cy a nw nh]
  note c2 = corner_error [OF acc eta u R big cx cy a pw nh]
  note c3 = corner_error [OF acc eta u R big cx cy a pw ph]
  note c4 = corner_error [OF acc eta u R big cx cy a nw ph]
  have i1: "fval cx + (- (?W / 2) * ?C - - (?H / 2) * ?S) = fval cx - ?W * ?C / 2 + ?H * ?S / 2"
    and j1: "fval cy + (- (?W / 2) * ?S + - (?H / 2) * ?C) = fval cy - ?W * ?S / 2 - ?H * ?C / 2"
    and i2: "fval cx + (?W / 2 * ?C - - (?H / 2) * ?S) = fval cx + ?W * ?C / 2 + ?H * ?S / 2"
    and j2: "fval cy + (?W / 2 * ?S + - (?H / 2) * ?C) = fval cy + ?W * ?S / 2 - ?H * ?C / 2"
    and i3: "fval cx + (?W / 2 * ?C - ?H / 2 * ?S) = fval cx + ?W * ?C / 2 - ?H * ?S / 2"
    and j3: "fval cy + (?W / 2 * ?S + ?H / 2 * ?C) = fval cy + ?W * ?S / 2 + ?H * ?C / 2"
    and i4: "fval cx + (- (?W / 2) * ?C - ?H / 2 * ?S) = fval cx - ?W * ?C / 2 - ?H * ?S / 2"
    and j4: "fval cy + (- (?W / 2) * ?S + ?H / 2 * ?C) = fval cy - ?W * ?S / 2 + ?H * ?C / 2"
    by simp_all
  show ?thesis
    unfolding rotate_points_unfold Let_def
    by (intro exI conjI, rule refl)
       (rule c1(3,4) c2(3,4) c3(3,4) c4(3,4) c1(1,2) [unfolded i1 j1] c2(1,2) [unfolded i2 j2]
             c3(1,2) [unfolded i3 j3] c4(1,2) [unfolded i4 j4])+
qed


lemma edge_length_normal:
  assumes "\<bar>p - (- (k * sin t))\<bar> \<le> e" and "\<bar>q - k * cos t\<bar> \<le> e"
  shows "\<bar>sqrt (p\<^sup>2 + q\<^sup>2) - \<bar>k\<bar>\<bar> \<le> 2 * e"
proof -
  have "(- (k * sin t))\<^sup>2 + (k * cos t)\<^sup>2 = k\<^sup>2"
    using sq_edge [of k t] by (simp add: add.commute)
  then have "sqrt ((- (k * sin t))\<^sup>2 + (k * cos t)\<^sup>2) = \<bar>k\<bar>"
    by (simp only: real_sqrt_abs)
  then show ?thesis
    using sqrt_sum_squares_diff [of p q "- (k * sin t)" "k * cos t"] assms by linarith
qed

lemma direction_error:
  assumes "\<bar>p - k * c\<bar> \<le> e" and "0 < (k::real)"
  shows "\<bar>p / k - c\<bar> \<le> e / k"
proof -
  have "p / k - c = (p - k * c) / k" using assms(2) by (simp add: field_simps)
  then have "\<bar>p / k - c\<bar> = \<bar>p - k * c\<bar> / k" using assms(2) by simp
  then show ?thesis using assms by (simp add: divide_right_mono)
qed

lemma midpoint_bound:
  fixes e :: real
  assumes "\<bar>a - (c + p)\<bar> \<le> e" and "\<bar>b - (c - p)\<bar> \<le> e"
  shows "\<bar>(a + b) / 2 - c\<bar> \<le> e"
  using assms by argo

lemma edge_bound:
  fixes e :: real
  assumes "\<bar>a - (c + p)\<bar> \<le> e" and "\<bar>b - (c + q)\<bar> \<le> e"
  shows "\<bar>(b - a) - (q - p)\<bar> \<le> 2 * e"
  using assms by linarith

lemma rotate_points_geometry:
  assumes acc: "accurate ops fin fval u eta big"
    and eta: "0 \<le> eta" "eta \<le> u" and u: "u \<le> 1 / 100" and R: "1 \<le> R"
    and big: "4 * R \<le> big"
    and cx: "fin cx" "\<bar>fval cx\<bar> \<le> R" and cy: "fin cy" "\<bar>fval cy\<bar> \<le> R"
    and w: "fin w" "\<bar>fval w\<bar> \<le> R" and h: "fin h" "\<bar>fval h\<bar> \<le> R"
    and a: "fin a"
  shows "\<exists>x1 y1 x2 y2 x3 y3 x4 y4.
           rotate_points ops cx cy w h a = [(x1, y1), (x2, y2), (x3, y3), (x4, y4)]
           \<and> fin x1 \<and> fin y1 \<and> fin x2 \<and> fin y2 \<and> fin x3 \<and> fin y3 \<and> fin x4 \<and> fin y4
           \<and> \<bar>(fval x1 + fval x3) / 2 - fval cx\<bar> \<le> 23 * (u * R)
           \<and> \<bar>(fval y1 + fval y3) / 2 - fval cy\<bar> \<le> 23 * (u * R)
           \<and> \<bar>(fval x2 + fval x4) / 2 - fval cx\<bar> \<le> 23 * (u * R)
           \<and> \<bar>(fval y2 + fval y4) / 2 - fval cy\<bar> \<le> 23 * (u * R)
           \<and> \<bar>(fval x2 - fval x1) - fval w * cos (fval a)\<bar> \<le> 46 * (u * R)
           \<and> \<bar>(fval y2 - fval y1) - fval w * sin (fval a)\<bar> \<le> 46 * (u * R)
           \<and> \<bar>(fval x4 - fval x1) - (- (fval h * sin (fval a)))\<bar> \<le> 46 * (u * R)
           \<and> \<bar>(fval y4 - fval y1) - fval h * cos (fval a)\<bar> \<le> 46 * (u * R)
           \<and> \<bar>sqrt ((fval x2 - fval x1)\<^sup>2 + (fval y2 - fval y1)\<^sup>2) - \<bar>fval w\<bar>\<bar>
                 \<le> 92 * (u * R)
           \<and> \<bar>sqrt ((fval x4 - fval x1)\<^sup>2 + (fval y4 - fval y1)\<^sup>2) - \<bar>fval h\<bar>\<bar>
                 \<le> 92 * (u * R)
           \<and> (0 < fval w \<longrightarrow>
                 \<bar>(fval x2 - fval x1) / fval w - cos (fval a)\<bar> \<le> 46 * (u * R) / fval w
                 \<and> \<bar>(fval y2 - fval y1) / fval w - sin (fval a)\<bar> \<le> 46 * (u * R) / fval w)"
proof -
  from rotate_points_accurate [OF assms]
  obtain x1 y1 x2 y2 x3 y3 x4 y4 where
    r: "rotate_points ops cx cy w h a = [(x1, y1), (x2, y2), (x3, y3), (x4, y4)]"
    and fn: "fin x1" "fin y1" "fin x2" "fin y2" "fin x3" "fin y3" "fin x4" "fin y4"
    and b1: "\<bar>fval x1 - (fval cx - fval w * cos (fval a) / 2 + fval h * sin (fval a) / 2)\<bar>
                 \<le> 23 * (u * R)"
    and d1: "\<bar>fval y1 - (fval cy - fval w * sin (fval a) / 2 - fval h * cos (fval a) / 2)\<bar>
                 \<le> 23 * (u * R)"
    and b2: "\<bar>fval x2 - (fval cx + fval w * cos (fval a) / 2 + fval h * sin (fval a) / 2)\<bar>
                 \<le> 23 * (u * R)"
    and d2: "\<bar>fval y2 - (fval cy + fval w * sin (fval a) / 2 - fval h * cos (fval a) / 2)\<bar>
                 \<le> 23 * (u * R)"
    and b3: "\<bar>fval x3 - (fval cx + fval w * cos (fval a) / 2 - fval h * sin (fval a) / 2)\<bar>
                 \<le> 23 * (u * R)"
    and d3: "\<bar>fval y3 - (fval cy + fval w * sin (fval a) / 2 + fval h * cos (fval a) / 2)\<bar>
                 \<le> 23 * (u * R)"
    and b4: "\<bar>fval x4 - (fval cx - fval w * cos (fval a) / 2 - fval h * sin (fval a) / 2)\<bar>
                 \<le> 23 * (u * R)"
    and d4: "\<bar>fval y4 - (fval cy - fval w * sin (fval a) / 2 + fval h * cos (fval a) / 2)\<bar>
                 \<le> 23 * (u * R)"
    by blast
  let ?W = "fval w" and ?H = "fval h" and ?C = "cos (fval a)" and ?S = "sin (fval a)"
  have f1: "fval cx - ?W * ?C / 2 + ?H * ?S / 2 = fval cx + (?H * ?S / 2 - ?W * ?C / 2)"
    and f2: "fval cx + ?W * ?C / 2 + ?H * ?S / 2 = fval cx + (?H * ?S / 2 + ?W * ?C / 2)"
    and f3: "fval cx + ?W * ?C / 2 - ?H * ?S / 2 = fval cx - (?H * ?S / 2 - ?W * ?C / 2)"
    and f4: "fval cx - ?W * ?C / 2 - ?H * ?S / 2 = fval cx - (?H * ?S / 2 + ?W * ?C / 2)"
    and f4': "fval cx - ?W * ?C / 2 - ?H * ?S / 2 = fval cx + (- (?H * ?S / 2) - ?W * ?C / 2)"
    and g1: "fval cy - ?W * ?S / 2 - ?H * ?C / 2 = fval cy + (- (?W * ?S / 2) - ?H * ?C / 2)"
    and g2: "fval cy + ?W * ?S / 2 - ?H * ?C / 2 = fval cy + (?W * ?S / 2 - ?H * ?C / 2)"
    and g3: "fval cy + ?W * ?S / 2 + ?H * ?C / 2 = fval cy - (- (?W * ?S / 2) - ?H * ?C / 2)"
    and g4: "fval cy - ?W * ?S / 2 + ?H * ?C / 2 = fval cy - (?W * ?S / 2 - ?H * ?C / 2)"
    and g4': "fval cy - ?W * ?S / 2 + ?H * ?C / 2 = fval cy + (?H * ?C / 2 - ?W * ?S / 2)"
    by simp_all
  have k: "2 * (23 * (u * R)) = 46 * (u * R)" by simp
  have m13x: "\<bar>(fval x1 + fval x3) / 2 - fval cx\<bar> \<le> 23 * (u * R)"
    by (rule midpoint_bound [OF b1 [unfolded f1] b3 [unfolded f3]])
  have m13y: "\<bar>(fval y1 + fval y3) / 2 - fval cy\<bar> \<le> 23 * (u * R)"
    by (rule midpoint_bound [OF d1 [unfolded g1] d3 [unfolded g3]])
  have m24x: "\<bar>(fval x2 + fval x4) / 2 - fval cx\<bar> \<le> 23 * (u * R)"
    by (rule midpoint_bound [OF b2 [unfolded f2] b4 [unfolded f4]])
  have m24y: "\<bar>(fval y2 + fval y4) / 2 - fval cy\<bar> \<le> 23 * (u * R)"
    by (rule midpoint_bound [OF d2 [unfolded g2] d4 [unfolded g4]])
  have e12x: "\<bar>(fval x2 - fval x1) - fval w * cos (fval a)\<bar> \<le> 46 * (u * R)"
    using edge_bound [OF b1 [unfolded f1] b2 [unfolded f2]] unfolding k by simp
  have e12y: "\<bar>(fval y2 - fval y1) - fval w * sin (fval a)\<bar> \<le> 46 * (u * R)"
    using edge_bound [OF d1 [unfolded g1] d2 [unfolded g2]] unfolding k by simp
  have e14x: "\<bar>(fval x4 - fval x1) - (- (fval h * sin (fval a)))\<bar> \<le> 46 * (u * R)"
    using edge_bound [OF b1 [unfolded f1] b4 [unfolded f4']] unfolding k by simp
  have e14y: "\<bar>(fval y4 - fval y1) - fval h * cos (fval a)\<bar> \<le> 46 * (u * R)"
    using edge_bound [OF d1 [unfolded g1] d4 [unfolded g4']] unfolding k by simp
  have lw: "\<bar>sqrt ((fval x2 - fval x1)\<^sup>2 + (fval y2 - fval y1)\<^sup>2) - \<bar>fval w\<bar>\<bar>
                 \<le> 92 * (u * R)"
    using edge_length [OF e12x e12y] by simp
  have lh: "\<bar>sqrt ((fval x4 - fval x1)\<^sup>2 + (fval y4 - fval y1)\<^sup>2) - \<bar>fval h\<bar>\<bar>
                 \<le> 92 * (u * R)"
    using edge_length_normal [OF e14x e14y] by simp
  have dir: "0 < fval w \<longrightarrow>
                 \<bar>(fval x2 - fval x1) / fval w - cos (fval a)\<bar> \<le> 46 * (u * R) / fval w
                 \<and> \<bar>(fval y2 - fval y1) / fval w - sin (fval a)\<bar> \<le> 46 * (u * R) / fval w"
    using direction_error [OF e12x] direction_error [OF e12y] by blast
  from r fn m13x m13y m24x m24y e12x e12y e14x e14y lw lh dir show ?thesis by blast
qed

lemma accurate_real_ops: "accurate real_ops (\<lambda>_. True) (\<lambda>x. x) (1 / 100) 0 4"
  unfolding accurate_def real_ops_def by simp


lemma short_decimal_examples:
  "short_decimal (1 / 2)" "short_decimal (1 / 4)" "short_decimal (1 / 5)" "short_decimal (1 / 10)"
  by code_simp+

text \<open>
  Claim C2, as the code has it.  For \<open>to_polygon\<close>: when the centre and the sizes are
  written with at most twenty decimals and are below a million in absolute value, no
  operation rounds, and in the context's own arithmetic \<open>x_max - x_min\<close> is the width,
  \<open>y_max - y_min\<close> the height, and the midpoints of the corner coordinates are the
  centre.  For \<open>rotate_points\<close>, on any float operations that meet the standard model
  \<open>accurate\<close> with unit roundoff \<open>u\<close>, on finite inputs of which the centre and the sizes
  are at most \<open>R\<close> in absolute value: the four corners are finite floats whose values give
  the geometry back within a tolerance proportional to \<open>u * R\<close>.  The midpoint of opposite
  corners is within \<open>23 * u * R\<close> of the centre in each coordinate; the edge from the first
  corner to the second is within \<open>46 * u * R\<close> of \<open>w\<close> times \<open>(cos a, sin a)\<close>, the edge from
  the first to the fourth within \<open>46 * u * R\<close> of \<open>h\<close> times \<open>(- sin a, cos a)\<close>; the lengths
  of these edges are within \<open>92 * u * R\<close> of \<open>|w|\<close> and \<open>|h|\<close>; and when \<open>w\<close> is positive the
  first edge divided by \<open>w\<close> is within \<open>46 * u * R / w\<close> of \<open>(cos a, sin a)\<close>, the direction
  of the angle.  The angle of a box of width zero is not recovered.
\<close>

theorem converters_recover_geometry:
  assumes "short_decimal x_center" and "short_decimal y_center"
    and "short_decimal width" and "short_decimal height"
    and "accurate ops fin fval u eta big"
    and "0 \<le> eta" and "eta \<le> u" and "u \<le> 1 / 100" and "1 \<le> R" and "4 * R \<le> big"
    and "fin cx" and "\<bar>fval cx\<bar> \<le> R" and "fin cy" and "\<bar>fval cy\<bar> \<le> R"
    and "fin w" and "\<bar>fval w\<bar> \<le> R" and "fin h" and "\<bar>fval h\<bar> \<le> R"
    and "fin a"
  shows "(case to_polygon label x_center y_center width height of
            (l, vs) \<Rightarrow>
              l = label
              \<and> vs = [vs ! 0, vs ! 1, vs ! 1, vs ! 0, vs ! 4, vs ! 4, vs ! 6, vs ! 6]
              \<and> dec_sub (vs ! 1) (vs ! 0) = width
              \<and> dec_sub (vs ! 6) (vs ! 4) = height
              \<and> dec_div (dec_add (vs ! 0) (vs ! 1)) 2 = x_center
              \<and> dec_div (dec_add (vs ! 4) (vs ! 6)) 2 = y_center)
         \<and> (\<exists>x1 y1 x2 y2 x3 y3 x4 y4.
               rotate_points ops cx cy w h a = [(x1, y1), (x2, y2), (x3, y3), (x4, y4)]
               \<and> fin x1 \<and> fin y1 \<and> fin x2 \<and> fin y2 \<and> fin x3 \<and> fin y3 \<and> fin x4 \<and> fin y4
               \<and> \<bar>(fval x1 + fval x3) / 2 - fval cx\<bar> \<le> 23 * (u * R)
               \<and> \<bar>(fval y1 + fval y3) / 2 - fval cy\<bar> \<le> 23 * (u * R)
               \<and> \<bar>(fval x2 + fval x4) / 2 - fval cx\<bar> \<le> 23 * (u * R)
               \<and> \<bar>(fval y2 + fval y4) / 2 - fval cy\<bar> \<le> 23 * (u * R)
               \<and> \<bar>(fval x2 - fval x1) - fval w * cos (fval a)\<bar> \<le> 46 * (u * R)
               \<and> \<bar>(fval y2 - fval y1) - fval w * sin (fval a)\<bar> \<le> 46 * (u * R)
               \<and> \<bar>(fval x4 - fval x1) - (- (fval h * sin (fval a)))\<bar> \<le> 46 * (u * R)
               \<and> \<bar>(fval y4 - fval y1) - fval h * cos (fval a)\<bar> \<le> 46 * (u * R)
               \<and> \<bar>sqrt ((fval x2 - fval x1)\<^sup>2 + (fval y2 - fval y1)\<^sup>2) - \<bar>fval w\<bar>\<bar>
                     \<le> 92 * (u * R)
               \<and> \<bar>sqrt ((fval x4 - fval x1)\<^sup>2 + (fval y4 - fval y1)\<^sup>2) - \<bar>fval h\<bar>\<bar>
                     \<le> 92 * (u * R)
               \<and> (0 < fval w \<longrightarrow>
                     \<bar>(fval x2 - fval x1) / fval w - cos (fval a)\<bar> \<le> 46 * (u * R) / fval w
                     \<and> \<bar>(fval y2 - fval y1) / fval w - sin (fval a)\<bar>
                           \<le> 46 * (u * R) / fval w))"
proof -
  note ax = to_polygon_axis [OF assms(1,3)] and ay = to_polygon_axis [OF assms(2,4)]
  have A: "(case to_polygon label x_center y_center width height of
            (l, vs) \<Rightarrow>
              l = label
              \<and> vs = [vs ! 0, vs ! 1, vs ! 1, vs ! 0, vs ! 4, vs ! 4, vs ! 6, vs ! 6]
              \<and> dec_sub (vs ! 1) (vs ! 0) = width
              \<and> dec_sub (vs ! 6) (vs ! 4) = height
              \<and> dec_div (dec_add (vs ! 0) (vs ! 1)) 2 = x_center
              \<and> dec_div (dec_add (vs ! 4) (vs ! 6)) 2 = y_center)"
    unfolding to_polygon_exact [OF assms(1-4)]
    using ax(4,5) ay(4,5) by simp
  note B = rotate_points_geometry [OF assms(5-19)]
  from A B show ?thesis by (rule conjI)
qed


theorem converters_recover_geometry_witness:
  "short_decimal (1 / 2) \<and> short_decimal (1 / 4) \<and> short_decimal (1 / 5)
   \<and> short_decimal (1 / 10)
   \<and> accurate real_ops (\<lambda>_. True) (\<lambda>x. x) (1 / 100) 0 4
   \<and> to_polygon ''0'' (1 / 2) (1 / 4) (1 / 5) (1 / 10)
       = (''0'', [2 / 5, 3 / 5, 3 / 5, 2 / 5, 1 / 5, 1 / 5, 3 / 10, 3 / 10])
   \<and> dec_sub (3 / 5) (2 / 5) = 1 / 5
   \<and> dec_div (dec_add (2 / 5) (3 / 5)) 2 = 1 / 2
   \<and> (\<exists>x1 y1 x2 y2 x3 y3 x4 y4.
         rotate_points real_ops (1 / 2) (1 / 4) (1 / 5) (1 / 10) 0
           = [(x1, y1), (x2, y2), (x3, y3), (x4, y4)]
         \<and> \<bar>(x1 + x3) / 2 - 1 / 2\<bar> \<le> 23 / 100
         \<and> \<bar>(y1 + y3) / 2 - 1 / 4\<bar> \<le> 23 / 100
         \<and> \<bar>(x2 - x1) - 1 / 5\<bar> \<le> 46 / 100
         \<and> \<bar>(y4 - y1) - 1 / 10\<bar> \<le> 46 / 100
         \<and> \<bar>(x2 - x1) / (1 / 5) - 1\<bar> \<le> 46 / 100 / (1 / 5))"
proof -
  have e: "to_polygon ''0'' (1 / 2) (1 / 4) (1 / 5) (1 / 10)
       = (''0'', [2 / 5, 3 / 5, 3 / 5, 2 / 5, 1 / 5, 1 / 5, 3 / 10, 3 / 10])"
    by code_simp
  have t: "(case to_polygon ''0'' (1 / 2) (1 / 4) (1 / 5) (1 / 10) of
            (l, vs) \<Rightarrow>
              l = ''0''
              \<and> vs = [vs ! 0, vs ! 1, vs ! 1, vs ! 0, vs ! 4, vs ! 4, vs ! 6, vs ! 6]
              \<and> dec_sub (vs ! 1) (vs ! 0) = 1 / 5
              \<and> dec_sub (vs ! 6) (vs ! 4) = 1 / 10
              \<and> dec_div (dec_add (vs ! 0) (vs ! 1)) 2 = 1 / 2
              \<and> dec_div (dec_add (vs ! 4) (vs ! 6)) 2 = 1 / 4)
         \<and> (\<exists>x1 y1 x2 y2 x3 y3 x4 y4.
               rotate_points real_ops (1 / 2) (1 / 4) (1 / 5) (1 / 10) 0
                 = [(x1, y1), (x2, y2), (x3, y3), (x4, y4)]
               \<and> True \<and> True \<and> True \<and> True \<and> True \<and> True \<and> True \<and> True
               \<and> \<bar>(x1 + x3) / 2 - 1 / 2\<bar> \<le> 23 * (1 / 100 * 1)
               \<and> \<bar>(y1 + y3) / 2 - 1 / 4\<bar> \<le> 23 * (1 / 100 * 1)
               \<and> \<bar>(x2 + x4) / 2 - 1 / 2\<bar> \<le> 23 * (1 / 100 * 1)
               \<and> \<bar>(y2 + y4) / 2 - 1 / 4\<bar> \<le> 23 * (1 / 100 * 1)
               \<and> \<bar>(x2 - x1) - 1 / 5 * cos 0\<bar> \<le> 46 * (1 / 100 * 1)
               \<and> \<bar>(y2 - y1) - 1 / 5 * sin 0\<bar> \<le> 46 * (1 / 100 * 1)
               \<and> \<bar>(x4 - x1) - (- (1 / 10 * sin 0))\<bar> \<le> 46 * (1 / 100 * 1)
               \<and> \<bar>(y4 - y1) - 1 / 10 * cos 0\<bar> \<le> 46 * (1 / 100 * 1)
               \<and> \<bar>sqrt ((x2 - x1)\<^sup>2 + (y2 - y1)\<^sup>2) - \<bar>1 / 5\<bar>\<bar> \<le> 92 * (1 / 100 * 1)
               \<and> \<bar>sqrt ((x4 - x1)\<^sup>2 + (y4 - y1)\<^sup>2) - \<bar>1 / 10\<bar>\<bar> \<le> 92 * (1 / 100 * 1)
               \<and> (0 < (1 / 5 :: real) \<longrightarrow>
                     \<bar>(x2 - x1) / (1 / 5) - cos 0\<bar> \<le> 46 * (1 / 100 * 1) / (1 / 5)
                     \<and> \<bar>(y2 - y1) / (1 / 5) - sin 0\<bar> \<le> 46 * (1 / 100 * 1) / (1 / 5)))"
    by (rule converters_recover_geometry
               [OF short_decimal_examples accurate_real_ops,
                where label = "''0''" and R = 1 and cx = "1 / 2" and cy = "1 / 4"
                  and w = "1 / 5" and h = "1 / 10" and a = 0])
       simp_all
  then obtain x1 y1 x2 y2 x3 y3 x4 y4 :: real where
    r: "rotate_points real_ops (1 / 2) (1 / 4) (1 / 5) (1 / 10) 0
          = [(x1, y1), (x2, y2), (x3, y3), (x4, y4)]"
    and b: "\<bar>(x1 + x3) / 2 - 1 / 2\<bar> \<le> 23 * (1 / 100 * 1)"
      "\<bar>(y1 + y3) / 2 - 1 / 4\<bar> \<le> 23 * (1 / 100 * 1)"
      "\<bar>(x2 - x1) - 1 / 5 * cos 0\<bar> \<le> 46 * (1 / 100 * 1)"
      "\<bar>(y4 - y1) - 1 / 10 * cos 0\<bar> \<le> 46 * (1 / 100 * 1)"
      "0 < (1 / 5 :: real) \<longrightarrow>
         \<bar>(x2 - x1) / (1 / 5) - cos 0\<bar> \<le> 46 * (1 / 100 * 1) / (1 / 5)
         \<and> \<bar>(y2 - y1) / (1 / 5) - sin 0\<bar> \<le> 46 * (1 / 100 * 1) / (1 / 5)"
    by blast
  have c: "\<bar>(x1 + x3) / 2 - 1 / 2\<bar> \<le> 23 / 100" "\<bar>(y1 + y3) / 2 - 1 / 4\<bar> \<le> 23 / 100"
    "\<bar>(x2 - x1) - 1 / 5\<bar> \<le> 46 / 100" "\<bar>(y4 - y1) - 1 / 10\<bar> \<le> 46 / 100"
    "\<bar>(x2 - x1) / (1 / 5) - 1\<bar> \<le> 46 / 100 / (1 / 5)"
    using b by simp_all
  have d: "dec_sub (3 / 5) (2 / 5) = 1 / 5" "dec_div (dec_add (2 / 5) (3 / 5)) 2 = 1 / 2"
    using t unfolding e by simp_all
  from short_decimal_examples accurate_real_ops e d r c show ?thesis by blast
qed

text \<open>
  Two inputs on which the geometry is not given back.  For \<open>to_polygon\<close>, a width of
  \<open>1E-30\<close> about the centre \<open>0.5\<close>: both \<open>x_min\<close> and \<open>x_max\<close> round to \<open>0.5\<close> at 28 digits,
  and their difference is zero, not the width.  For \<open>rotate_points\<close>, a box of width and
  height zero: the four corners are the centre whatever the angle, so the angles \<open>0\<close> and
  \<open>1\<close> give the same corners and neither can be read off them.  (Every operation of this
  second computation is exact in binary floating point as well: the products are zeros.)
\<close>

theorem converters_geometry_counterexample:
  "dec_sub (snd (to_polygon ''0'' (1 / 2) (1 / 2) (1 / 10 ^ 30) (1 / 10)) ! 1)
           (snd (to_polygon ''0'' (1 / 2) (1 / 2) (1 / 10 ^ 30) (1 / 10)) ! 0) = 0
   \<and> (0 :: rat) \<noteq> 1 / 10 ^ 30
   \<and> rotate_points real_ops (1 / 2) (1 / 2) 0 0 0
       = [(1 / 2, 1 / 2), (1 / 2, 1 / 2), (1 / 2, 1 / 2), (1 / 2, 1 / 2)]
   \<and> rotate_points real_ops (1 / 2) (1 / 2) 0 0 1
       = [(1 / 2, 1 / 2), (1 / 2, 1 / 2), (1 / 2, 1 / 2), (1 / 2, 1 / 2)]
   \<and> (0 :: real) \<noteq> 1"
proof -
  have A: "dec_sub (snd (to_polygon ''0'' (1 / 2) (1 / 2) (1 / 10 ^ 30) (1 / 10)) ! 1)
           (snd (to_polygon ''0'' (1 / 2) (1 / 2) (1 / 10 ^ 30) (1 / 10)) ! 0) = 0
   \<and> (0 :: rat) \<noteq> 1 / 10 ^ 30"
    by code_simp
  have B: "rotate_points real_ops (1 / 2) (1 / 2) 0 0 0
       = [(1 / 2, 1 / 2), (1 / 2, 1 / 2), (1 / 2, 1 / 2), (1 / 2, 1 / 2)]"
    "rotate_points real_ops (1 / 2) (1 / 2) 0 0 1
       = [(1 / 2, 1 / 2), (1 / 2, 1 / 2), (1 / 2, 1 / 2), (1 / 2, 1 / 2)]"
    by (simp_all add: rotate_points_def real_ops_def Let_def)
  from A B show ?thesis by simp
qed
end
